theory Spec2Isabelle
  imports Main
begin

section \<open>The overlapped shredding pipeline of ashred.c\<close>

text \<open>
  The program overwrites a target with random bytes through a fixed pool of POSIX
  asynchronous I/O control blocks. Everything it learns about the outside world comes
  back as the integer result of a system call, so the environment is a script: the list
  of answers the successive calls receive. The program is a function from such a script
  to the sequence of calls it makes (the trace), its final memory and its return value.
  A script that ends before the program does leaves the run \<open>Stuck\<close> at the call that
  found no answer; the states in which runs get stuck are thus all the reachable states
  at call boundaries.
\<close>

subsection \<open>Data\<close>

text \<open>
  The fields of \<open>struct aiocb\<close> that the program reads or writes. \<open>aio_offset\<close> is an
  \<open>off_t\<close> and \<open>aio_nbytes\<close> a \<open>size_t\<close>; both are kept as the natural number their
  64 bits denote when read unsigned, which is how every comparison of the source reads
  them.
\<close>

record aiocb =
  aio_fildes :: int
  aio_offset :: nat
  aio_nbytes :: nat

text \<open>
  One answer of the environment: the value the call returns and the value it leaves in
  \<open>errno\<close> should it fail (all calls used here signal their own failure by a negative
  result).
\<close>

record answer =
  ret :: int
  eno :: int

text \<open>
  The calls the program makes, with their arguments (a control block is recorded as it
  stands when the call is made, together with its index in the pool) and, for calls whose
  result is inspected, the result.
\<close>

datatype event =
    Open_urandom int
  | Malloc_pool nat
  | Malloc_buf nat nat
  | Read int nat nat int
  | Fstat int int
  | Ioctl_mediasize int int
  | Malloc_list nat
  | Free_list
  | Aio_write nat aiocb int
  | Aio_error nat aiocb int
  | Aio_return nat aiocb int
  | Aio_suspend int
  | Fsync int int
  | Close int
  | Free_buf nat
  | Printf string "int list"

text \<open>
  The memory of a run: the pool \<open>bl\<close>, the locals \<open>off\<close>, \<open>total\<close> and \<open>nread\<close> of
  \<open>shred_from\<close>, the local \<open>total_size\<close> of \<open>shred\<close>, \<open>errno\<close>, the answers not yet
  consumed, what the coming calls of \<open>printf\<close> will do to \<open>errno\<close>, and the calls made so
  far.
\<close>

record state =
  bl :: "aiocb list"
  off :: nat
  total_bytes :: nat
  nread :: nat
  total_size :: int
  errno :: int
  script :: "answer list"
  stdout_errno :: "int option list"
  trace :: "event list"

text \<open>
  What \<open>fstat\<close> and the media-size \<open>ioctl\<close> report about the target when they succeed.
\<close>

record target =
  st_size :: int
  st_ischr :: bool
  media_size :: int

text \<open>How control leaves a piece of code.\<close>

datatype flow = Next | Break | Return int | Stuck

subsection \<open>Machine arithmetic and the environment\<close>

text \<open>\<open>size_t\<close>, \<open>off_t\<close> and \<open>ssize_t\<close> are 64 bits wide on the platform of the program.\<close>

definition SIZE_MOD :: nat where
  "SIZE_MOD = 2 ^ 64"

definition to_ssize :: "nat \<Rightarrow> int" where
  "to_ssize n = (if n mod SIZE_MOD < 2 ^ 63 then int (n mod SIZE_MOD)
                 else int (n mod SIZE_MOD) - 2 ^ 64)"

definition to_size :: "int \<Rightarrow> nat" where
  "to_size k = nat (k mod 2 ^ 64)"

text \<open>
  \<open>EINPROGRESS\<close> comes from the system header \<open><errno.h>\<close>; 36 is its value on FreeBSD,
  the platform of \<open><sys/disk.h>\<close> and \<open>DIOCGMEDIASIZE\<close>. No proof below depends on the value.
\<close>

definition EINPROGRESS :: int where
  "EINPROGRESS = 36"

text \<open>
  A system call takes the next answer of the script, records itself in the trace, sets
  \<open>errno\<close> when it fails, and hands its result to the code that follows. With no answer
  left the run cannot go on.
\<close>

definition call :: "(int \<Rightarrow> event) \<Rightarrow> state \<Rightarrow> (int \<Rightarrow> state \<Rightarrow> flow \<times> state) \<Rightarrow> flow \<times> state" where
  "call ev s k =
     (case script s of
        [] \<Rightarrow> (Stuck, s)
      | a # as \<Rightarrow>
          k (ret a) (s\<lparr>script := as, trace := trace s @ [ev (ret a)],
                       errno := (if ret a < 0 then eno a else errno s)\<rparr>))"

lemma call_cong [fundef_cong]:
  assumes "s = s'" and "ev = ev'"
    and "\<And>a as. script s' = a # as \<Longrightarrow>
           k (ret a) (s'\<lparr>script := as, trace := trace s' @ [ev' (ret a)],
                          errno := (if ret a < 0 then eno a else errno s')\<rparr>)
         = k' (ret a) (s'\<lparr>script := as, trace := trace s' @ [ev' (ret a)],
                           errno := (if ret a < 0 then eno a else errno s')\<rparr>)"
  shows "call ev s k = call ev' s' k'"
  using assms by (simp add: call_def split: list.splits)

text \<open>Library calls whose result the program never looks at only leave their mark in the trace.\<close>

definition emit :: "event \<Rightarrow> state \<Rightarrow> state" where
  "emit e s = s\<lparr>trace := trace s @ [e]\<rparr>"

text \<open>
  \<open>printf\<close> is such a call, but the program reads \<open>errno\<close> after it, and a library call
  may leave any value there, whether it fails or not (a closed or redirected standard
  output is enough). What each coming \<open>printf\<close> does to \<open>errno\<close> is the choice of the
  environment, \<open>None\<close> for leaving it alone; it is kept apart from the script, so that a
  \<open>printf\<close> never waits for an answer, and when nothing is said \<open>errno\<close> is left alone.
\<close>

definition printf :: "string \<Rightarrow> int list \<Rightarrow> state \<Rightarrow> state" where
  "printf fmt args s =
     (case stdout_errno s of
        [] \<Rightarrow> emit (Printf fmt args) s
      | e # es \<Rightarrow>
          (emit (Printf fmt args) s)
            \<lparr>stdout_errno := es, errno := (case e of None \<Rightarrow> errno s | Some v \<Rightarrow> v)\<rparr>)"

lemma printf_fields [simp]:
  "bl (printf fmt args s) = bl s"
  "off (printf fmt args s) = off s"
  "total_bytes (printf fmt args s) = total_bytes s"
  "nread (printf fmt args s) = nread s"
  "total_size (printf fmt args s) = total_size s"
  "script (printf fmt args s) = script s"
  "trace (printf fmt args s) = trace s @ [Printf fmt args]"
  by (simp_all add: printf_def emit_def split: list.splits)

subsection \<open>The helpers of the source\<close>

definition get_bl_list_from_array :: "nat \<Rightarrow> state \<Rightarrow> state" where
  "get_bl_list_from_array nbl s = emit (Malloc_list nbl) s"

definition free_bl_list :: "state \<Rightarrow> state" where
  "free_bl_list s = emit Free_list s"

text \<open>
  \<open>bl_init\<close> zeroes the control block, points it at the random source, allocates its
  buffer and sets the request length to the buffer size.
\<close>

definition bl_init :: "nat \<Rightarrow> int \<Rightarrow> nat \<Rightarrow> state \<Rightarrow> state" where
  "bl_init i rfd buf_size s =
     emit (Malloc_buf i buf_size)
       (s\<lparr>bl := (bl s)[i := \<lparr>aio_fildes = rfd, aio_offset = 0, aio_nbytes = buf_size\<rparr>]\<rparr>)"

subsection \<open>The body of the dispatch loop\<close>

text \<open>Lines 154 to 169: a slot in the reading role is given the next range and dispatched.\<close>

definition dispatch :: "int \<Rightarrow> nat \<Rightarrow> nat \<Rightarrow> state \<Rightarrow> flow \<times> state" where
  "dispatch wfd len i s =
     (let b = (bl s ! i)\<lparr>aio_fildes := wfd, aio_offset := off s\<rparr>;
          b = (if len \<le> (aio_nbytes b + off s) mod SIZE_MOD
               then b\<lparr>aio_nbytes := (len + SIZE_MOD - off s) mod SIZE_MOD\<rparr> else b);
          s = s\<lparr>bl := (bl s)[i := b]\<rparr>
      in call (Aio_write i b) s (\<lambda>r s.
           if r < 0
           then (Return (- 1), free_bl_list (printf ''Write error: %s'' [errno s] s))
           else
             let s = s\<lparr>off := (off s + aio_nbytes (bl s ! i)) mod SIZE_MOD\<rparr>
             in if len \<le> off s then (Break, s) else (Next, s)))"

text \<open>
  Lines 171 to 188: a slot in the writing role is polled; a finished write is collected,
  its count added to the total, and the slot is refilled from the random source.
\<close>

definition refill :: "int \<Rightarrow> nat \<Rightarrow> state \<Rightarrow> flow \<times> state" where
  "refill rfd i s =
     (let s = s\<lparr>bl := (bl s)[i := (bl s ! i)\<lparr>aio_fildes := rfd\<rparr>]\<rparr>
      in call (Read (aio_fildes (bl s ! i)) i (aio_nbytes (bl s ! i))) s (\<lambda>res s.
           if res < 0
           then (Return (- 1), free_bl_list (printf ''Read error: %s'' [errno s] s))
           else (Next, s\<lparr>nread := nread s + 1\<rparr>)))"

definition complete :: "int \<Rightarrow> nat \<Rightarrow> state \<Rightarrow> flow \<times> state" where
  "complete rfd i s =
     call (Aio_error i (bl s ! i)) s (\<lambda>e s.
       if e = EINPROGRESS then (Next, s)
       else
         call (Aio_return i (bl s ! i)) s (\<lambda>bcnt s.
           if bcnt < 0
           then (Return (- 1),
                 free_bl_list (printf ''Write completion error: %s'' [errno s] s))
           else refill rfd i (s\<lparr>total_bytes := (total_bytes s + nat bcnt) mod SIZE_MOD\<rparr>)))"

definition slot_body :: "int \<Rightarrow> int \<Rightarrow> nat \<Rightarrow> nat \<Rightarrow> state \<Rightarrow> flow \<times> state" where
  "slot_body rfd wfd len i s =
     (if aio_fildes (bl s ! i) = rfd then dispatch wfd len i s
      else if aio_fildes (bl s ! i) = wfd then complete rfd i s
      else (Next, s))"

text \<open>The \<open>for\<close> loop of lines 152 to 190, from index \<open>i\<close> on.\<close>

function for_slots :: "int \<Rightarrow> int \<Rightarrow> nat \<Rightarrow> nat \<Rightarrow> nat \<Rightarrow> state \<Rightarrow> flow \<times> state" where
  "for_slots rfd wfd len nbl i s =
     (if i < nbl then
        (case slot_body rfd wfd len i s of
           (Next, s') \<Rightarrow> for_slots rfd wfd len nbl (i + 1) s'
         | (Break, s') \<Rightarrow> (Next, s')
         | (fl, s') \<Rightarrow> (fl, s'))
      else (Next, s))"
  by pat_completeness auto
termination
  by (relation "measure (\<lambda>(rfd, wfd, len, nbl, i, s). nbl - i)") auto

declare for_slots.simps [simp del]

lemma for_slots_done [simp]:
  "\<not> i < nbl \<Longrightarrow> for_slots rfd wfd len nbl i s = (Next, s)"
  by (simp add: for_slots.simps)

lemma for_slots_step [simp]:
  "i < nbl \<Longrightarrow> for_slots rfd wfd len nbl i s =
     (case slot_body rfd wfd len i s of
        (Next, s') \<Rightarrow> for_slots rfd wfd len nbl (i + 1) s'
      | (Break, s') \<Rightarrow> (Next, s')
      | (fl, s') \<Rightarrow> (fl, s'))"
  by (subst for_slots.simps) simp

text \<open>Lines 192 to 201: with nothing refilled in the round, wait for some completion.\<close>

definition stall :: "state \<Rightarrow> flow \<times> state" where
  "stall s =
     (if nread s = 0 then
        call Aio_suspend s (\<lambda>err s.
          if err < 0
          then (Return (- 1),
                free_bl_list (printf ''Suspend failed (%d): %s'' [errno s, errno s] s))
          else (Next, s))
      else (Next, s))"

text \<open>One turn of the \<open>while\<close> loop of lines 150 to 202.\<close>

definition dispatch_round :: "int \<Rightarrow> int \<Rightarrow> nat \<Rightarrow> nat \<Rightarrow> state \<Rightarrow> flow \<times> state" where
  "dispatch_round rfd wfd len nbl s =
     (case for_slots rfd wfd len nbl 0 (s\<lparr>nread := 0\<rparr>) of
        (Next, s') \<Rightarrow> stall s'
      | (fl, s') \<Rightarrow> (fl, s'))"

subsection \<open>The answers left never grow\<close>

text \<open>
  Every turn of the \<open>while\<close> loop that goes on has consumed an answer: either a slot was
  refilled, or the loop waited in \<open>aio_suspend\<close>. This is what makes the loop a total
  function of the script.
\<close>

definition consumes :: "state \<Rightarrow> state \<Rightarrow> bool" where
  "consumes s s' \<longleftrightarrow>
     length (script s') \<le> length (script s) \<and> nread s \<le> nread s' \<and>
     (nread s < nread s' \<longrightarrow> length (script s') < length (script s))"

lemma consumes_refl: "consumes s s"
  by (simp add: consumes_def)

lemma consumes_trans: "consumes s s' \<Longrightarrow> consumes s' s'' \<Longrightarrow> consumes s s''"
  by (auto simp: consumes_def)

lemma dispatch_consumes: "dispatch wfd len i s = (fl, s') \<Longrightarrow> consumes s s'"
  by (auto simp: dispatch_def call_def consumes_def Let_def free_bl_list_def printf_def emit_def
      split: list.splits if_splits)

lemma refill_consumes: "refill rfd i s = (fl, s') \<Longrightarrow> consumes s s'"
  by (auto simp: refill_def call_def consumes_def Let_def free_bl_list_def printf_def emit_def
      split: list.splits if_splits)

lemma complete_consumes: "complete rfd i s = (fl, s') \<Longrightarrow> consumes s s'"
  by (auto simp: complete_def call_def free_bl_list_def printf_def emit_def
      dest!: refill_consumes split: list.splits if_splits)
    (auto simp: consumes_def)

lemma slot_body_consumes: "slot_body rfd wfd len i s = (fl, s') \<Longrightarrow> consumes s s'"
  by (auto simp: slot_body_def consumes_refl split: if_splits
      dest: dispatch_consumes complete_consumes)

lemma for_slots_consumes: "for_slots rfd wfd len nbl i s = (fl, s') \<Longrightarrow> consumes s s'"
proof (induction rfd wfd len nbl i s rule: for_slots.induct)
  case (1 rfd wfd len nbl i s)
  show ?case
  proof (cases "i < nbl")
    case False
    with "1.prems" show ?thesis by (simp add: consumes_refl)
  next
    case True
    obtain f1 s1 where b: "slot_body rfd wfd len i s = (f1, s1)"
      by (cases "slot_body rfd wfd len i s")
    have c1: "consumes s s1" using b by (rule slot_body_consumes)
    show ?thesis
    proof (cases "f1 = Next")
      case True
      with "1.prems" \<open>i < nbl\<close> b have "for_slots rfd wfd len nbl (i + 1) s1 = (fl, s')"
        by simp
      with "1.IH" \<open>i < nbl\<close> b True have "consumes s1 s'" by simp
      with c1 show ?thesis by (rule consumes_trans)
    next
      case False
      with "1.prems" \<open>i < nbl\<close> b have "s' = s1" by (cases f1) auto
      with c1 show ?thesis by simp
    qed
  qed
qed

lemma dispatch_round_shorter:
  assumes "dispatch_round rfd wfd len nbl s = (Next, s')"
  shows "length (script s') < length (script s)"
proof -
  obtain f1 s1 where f: "for_slots rfd wfd len nbl 0 (s\<lparr>nread := 0\<rparr>) = (f1, s1)"
    by (cases "for_slots rfd wfd len nbl 0 (s\<lparr>nread := 0\<rparr>)")
  have c: "consumes (s\<lparr>nread := 0\<rparr>) s1" using f by (rule for_slots_consumes)
  from assms f have n: "f1 = Next" and st: "stall s1 = (Next, s')"
    by (auto simp: dispatch_round_def split: flow.splits)
  show ?thesis
  proof (cases "nread s1 = 0")
    case True
    with st have "length (script s') < length (script s1)"
      by (auto simp: stall_def call_def free_bl_list_def printf_def emit_def
          split: list.splits if_splits)
    with c show ?thesis by (simp add: consumes_def)
  next
    case False
    with st have "s' = s1" by (simp add: stall_def)
    with c False show ?thesis by (simp add: consumes_def)
  qed
qed

subsection \<open>The pipeline\<close>

text \<open>The \<open>while\<close> loop of lines 150 to 202.\<close>

function main_loop :: "int \<Rightarrow> int \<Rightarrow> nat \<Rightarrow> nat \<Rightarrow> state \<Rightarrow> flow \<times> state" where
  "main_loop rfd wfd len nbl s =
     (if off s < len then
        (case dispatch_round rfd wfd len nbl s of
           (Next, s') \<Rightarrow> main_loop rfd wfd len nbl s'
         | (fl, s') \<Rightarrow> (fl, s'))
      else (Next, s))"
  by pat_completeness auto
termination
  by (relation "measure (\<lambda>(rfd, wfd, len, nbl, s). length (script s))")
    (auto dest: dispatch_round_shorter [OF sym])

declare main_loop.simps [simp del]

lemma main_loop_done [simp]:
  "\<not> off s < len \<Longrightarrow> main_loop rfd wfd len nbl s = (Next, s)"
  by (simp add: main_loop.simps)

lemma main_loop_step [simp]:
  "off s < len \<Longrightarrow> main_loop rfd wfd len nbl s =
     (case dispatch_round rfd wfd len nbl s of
        (Next, s') \<Rightarrow> main_loop rfd wfd len nbl s'
      | (fl, s') \<Rightarrow> (fl, s'))"
  by (subst main_loop.simps) simp

text \<open>Lines 212 and 213: poll one write until it is no longer in progress.\<close>

function busy_wait :: "nat \<Rightarrow> state \<Rightarrow> flow \<times> state" where
  "busy_wait i s =
     call (Aio_error i (bl s ! i)) s (\<lambda>e s'.
       if e = EINPROGRESS then busy_wait i s' else (Next, s'))"
  by pat_completeness auto
termination
  by (relation "measure (\<lambda>(i, s). length (script s))") auto

declare busy_wait.simps [simp del]

text \<open>Lines 208 to 220: the drain of one slot.\<close>

definition drain_slot :: "int \<Rightarrow> nat \<Rightarrow> state \<Rightarrow> flow \<times> state" where
  "drain_slot wfd i s =
     (if aio_fildes (bl s ! i) \<noteq> wfd then (Next, s)
      else
        (case busy_wait i s of
           (Next, s') \<Rightarrow>
             call (Aio_return i (bl s' ! i)) s' (\<lambda>bcnt s.
               if bcnt < 0
               then (Return (- 1), printf ''Final write completion error: %s'' [errno s] s)
               else (Next, s\<lparr>total_bytes := (total_bytes s + nat bcnt) mod SIZE_MOD\<rparr>))
         | (fl, s') \<Rightarrow> (fl, s')))"

function drain :: "int \<Rightarrow> nat \<Rightarrow> nat \<Rightarrow> state \<Rightarrow> flow \<times> state" where
  "drain wfd nbl i s =
     (if i < nbl then
        (case drain_slot wfd i s of
           (Next, s') \<Rightarrow> drain wfd nbl (i + 1) s'
         | (fl, s') \<Rightarrow> (fl, s'))
      else (Next, s))"
  by pat_completeness auto
termination
  by (relation "measure (\<lambda>(wfd, nbl, i, s). nbl - i)") auto

declare drain.simps [simp del]

lemma drain_done [simp]:
  "\<not> i < nbl \<Longrightarrow> drain wfd nbl i s = (Next, s)"
  by (simp add: drain.simps)

lemma drain_step [simp]:
  "i < nbl \<Longrightarrow> drain wfd nbl i s =
     (case drain_slot wfd i s of
        (Next, s') \<Rightarrow> drain wfd nbl (i + 1) s'
      | (fl, s') \<Rightarrow> (fl, s'))"
  by (subst drain.simps) simp

text \<open>
  Lines 223 to 230: the flush. The value \<open>fsync\<close> returned is what the program prints
  and stores into \<open>errno\<close> before it gives up.
\<close>

definition flush :: "int \<Rightarrow> state \<Rightarrow> flow \<times> state" where
  "flush wfd s =
     call (Fsync wfd) s (\<lambda>err s.
       if err \<noteq> 0
       then (Return (- 1),
             (printf ''Failed to flush writes, error %d: %s'' [err, err] s)\<lparr>errno := err\<rparr>)
       else (Return (to_ssize (total_bytes s)), s))"

definition shred_from :: "int \<Rightarrow> int \<Rightarrow> nat \<Rightarrow> nat \<Rightarrow> state \<Rightarrow> flow \<times> state" where
  "shred_from rfd wfd nbl len s =
     (case main_loop rfd wfd len nbl
             (get_bl_list_from_array nbl (s\<lparr>off := 0, total_bytes := 0\<rparr>)) of
        (Next, s') \<Rightarrow>
          (case drain wfd nbl 0 (free_bl_list s') of
             (Next, s'') \<Rightarrow> flush wfd s''
           | (fl, s'') \<Rightarrow> (fl, s''))
      | (fl, s') \<Rightarrow> (fl, s'))"

subsection \<open>Size resolution and the driver\<close>

text \<open>Lines 47 to 65. \<open>Return\<close> carries the status \<open>get_size\<close> returns, 0 on success.\<close>

definition get_size :: "int \<Rightarrow> target \<Rightarrow> state \<Rightarrow> flow \<times> state" where
  "get_size fd tgt s =
     call (Fstat fd) s (\<lambda>err s.
       if err \<noteq> 0 then (Return err, s)
       else if st_ischr tgt then
         call (Ioctl_mediasize fd) s (\<lambda>err s.
           if err \<noteq> 0 then (Return err, s)
           else (Return 0, s\<lparr>total_size := media_size tgt\<rparr>))
       else (Return 0, s\<lparr>total_size := st_size tgt\<rparr>))"

definition blcnt :: nat where
  "blcnt = 8"

definition buf_size :: nat where
  "buf_size = 128 * 1024"

text \<open>
  Lines 91 to 98: every slot is initialised and primed with one blocking read. On a failed
  read the message is printed first, and what is returned is \<open>errno\<close> as it stands then.
\<close>

function prime :: "int \<Rightarrow> nat \<Rightarrow> nat \<Rightarrow> nat \<Rightarrow> state \<Rightarrow> flow \<times> state" where
  "prime randfd cnt bsz i s =
     (if i < cnt then
        (let s = bl_init i randfd bsz s
         in call (Read (aio_fildes (bl s ! i)) i (aio_nbytes (bl s ! i))) s (\<lambda>res s.
              if res < 0
              then (let s = printf ''Failed initial read'' [] s in (Return (errno s), s))
              else prime randfd cnt bsz (i + 1) s))
      else (Next, s))"
  by pat_completeness auto
termination
  by (relation "measure (\<lambda>(randfd, cnt, bsz, i, s). cnt - i)") auto

declare prime.simps [simp del]

lemma prime_done [simp]:
  "\<not> i < cnt \<Longrightarrow> prime randfd cnt bsz i s = (Next, s)"
  by (simp add: prime.simps)

lemma prime_step [simp]:
  "i < cnt \<Longrightarrow> prime randfd cnt bsz i s =
     (let s = bl_init i randfd bsz s
      in call (Read (aio_fildes (bl s ! i)) i (aio_nbytes (bl s ! i))) s (\<lambda>res s.
           if res < 0
           then (let s = printf ''Failed initial read'' [] s in (Return (errno s), s))
           else prime randfd cnt bsz (i + 1) s))"
  by (subst prime.simps) simp

text \<open>Lines 112 to 114.\<close>

function free_bufs :: "nat \<Rightarrow> nat \<Rightarrow> state \<Rightarrow> state" where
  "free_bufs cnt i s = (if i < cnt then free_bufs cnt (i + 1) (emit (Free_buf i) s) else s)"
  by pat_completeness auto
termination
  by (relation "measure (\<lambda>(cnt, i, s). cnt - i)") auto

declare free_bufs.simps [simp del]

lemma free_bufs_done [simp]:
  "\<not> i < cnt \<Longrightarrow> free_bufs cnt i s = s"
  by (simp add: free_bufs.simps)

lemma free_bufs_step [simp]:
  "i < cnt \<Longrightarrow> free_bufs cnt i s = free_bufs cnt (i + 1) (emit (Free_buf i) s)"
  by (subst free_bufs.simps) simp

text \<open>
  Lines 77 to 122. The pool array comes from \<open>malloc\<close> with arbitrary contents; every
  element is initialised by \<open>bl_init\<close> before it is read. Timing is left out. Every
  \<open>return errno\<close> reads \<open>errno\<close> as the calls before it left it, the \<open>printf\<close> of the
  message included.
\<close>

definition shred :: "int \<Rightarrow> target \<Rightarrow> state \<Rightarrow> flow \<times> state" where
  "shred fd tgt s =
     call Open_urandom s (\<lambda>randfd s.
       if randfd < 0
       then (let s = printf ''Can't open /dev/urandom, error %s'' [errno s] s
             in (Return (errno s), s))
       else
         (case prime randfd blcnt buf_size 0
                 (emit (Malloc_pool blcnt)
                    (s\<lparr>bl := replicate blcnt
                            \<lparr>aio_fildes = 0, aio_offset = 0, aio_nbytes = 0\<rparr>\<rparr>)) of
            (Next, s) \<Rightarrow>
              (case get_size fd tgt (s\<lparr>total_size := 0\<rparr>) of
                 (Return err, s) \<Rightarrow>
                   if err \<noteq> 0 then (Return err, s)
                   else
                     (case shred_from randfd fd blcnt (to_size (total_size s)) s of
                        (Return bytes_written, s) \<Rightarrow>
                          if bytes_written < 0 then (Return (errno s), s)
                          else
                            (Return 0,
                             printf ''%zd bytes in %g seconds = %g bytes/s'' [bytes_written]
                               (free_bufs blcnt 0 (emit (Close randfd) s)))
                      | (fl, s) \<Rightarrow> (fl, s))
               | (fl, s) \<Rightarrow> (fl, s))
          | (fl, s) \<Rightarrow> (fl, s)))"

section \<open>Vocabulary of the properties\<close>

subsection \<open>Pools and scripts\<close>

text \<open>The calls of the asynchronous I/O interface.\<close>

fun is_aio :: "event \<Rightarrow> bool" where
  "is_aio (Aio_write i cb r) = True"
| "is_aio (Aio_error i cb r) = True"
| "is_aio (Aio_return i cb r) = True"
| "is_aio _ = False"

text \<open>
  The state in which \<open>shred\<close> hands the pool to \<open>shred_from\<close>: \<open>nbl\<close> control blocks as
  \<open>bl_init\<close> leaves them, all pointing at the random source with the full buffer size as
  request length, and no asynchronous call made yet.
\<close>

definition primed :: "int \<Rightarrow> nat \<Rightarrow> nat \<Rightarrow> state \<Rightarrow> bool" where
  "primed rfd C nbl s \<longleftrightarrow>
     length (bl s) = nbl \<and>
     list_all (\<lambda>b. aio_fildes b = rfd \<and> aio_nbytes b = C) (bl s) \<and>
     list_all (\<lambda>e. \<not> is_aio e) (trace s)"

text \<open>Concrete inputs: a pool, a state that starts a run on a script, and answers.\<close>

definition pool :: "int \<Rightarrow> nat \<Rightarrow> nat \<Rightarrow> aiocb list" where
  "pool rfd C nbl = replicate nbl \<lparr>aio_fildes = rfd, aio_offset = 0, aio_nbytes = C\<rparr>"

definition start :: "aiocb list \<Rightarrow> answer list \<Rightarrow> state" where
  "start p answers =
     \<lparr>bl = p, off = 0, total_bytes = 0, nread = 0, total_size = 0, errno = 0,
      script = answers, stdout_errno = [], trace = []\<rparr>"

definition ok :: "int \<Rightarrow> answer" where
  "ok r = \<lparr>ret = r, eno = 0\<rparr>"

definition failing :: "int \<Rightarrow> answer" where
  "failing e = \<lparr>ret = - 1, eno = e\<rparr>"

subsection \<open>The shape of the pool during a run\<close>

text \<open>
  Every slot is in one of the two roles, the cursor has not passed the end, and every
  request has the length of the buffer, but for the request that reached the end of the
  target, which may be shorter and stays in the writing role.
\<close>

definition shape :: "int \<Rightarrow> int \<Rightarrow> nat \<Rightarrow> nat \<Rightarrow> nat \<Rightarrow> state \<Rightarrow> bool" where
  "shape rfd wfd C len nbl s \<longleftrightarrow>
     length (bl s) = nbl \<and> off s \<le> len \<and>
     (\<forall>i<nbl. (aio_fildes (bl s ! i) = rfd \<or> aio_fildes (bl s ! i) = wfd) \<and>
              aio_nbytes (bl s ! i) \<le> C \<and>
              (aio_nbytes (bl s ! i) = C \<or> aio_fildes (bl s ! i) = wfd \<and> off s = len))"

text \<open>The length of the range assigned at cursor \<open>cur\<close>.\<close>

definition chunk :: "nat \<Rightarrow> nat \<Rightarrow> nat \<Rightarrow> nat" where
  "chunk C len cur = min C (len - cur)"

subsection \<open>The ranges assigned to slots\<close>

text \<open>
  The byte range, as cursor and length, that a call hands to the target: the range of
  every \<open>aio_write\<close> the system accepted.
\<close>

fun range_of :: "event \<Rightarrow> (nat \<times> nat) list" where
  "range_of (Aio_write i cb r) = (if 0 \<le> r then [(aio_offset cb, aio_nbytes cb)] else [])"
| "range_of _ = []"

text \<open>The ranges dispatched in a trace, in the order of the calls.\<close>

definition ranges :: "event list \<Rightarrow> (nat \<times> nat) list" where
  "ranges t = concat (map range_of t)"

text \<open>
  A list of ranges tiles the interval from \<open>a\<close> to \<open>b\<close>: each range starts where the one
  before it ended, the first at \<open>a\<close>, the last ends at \<open>b\<close>, and none is empty.
\<close>

fun covers :: "nat \<Rightarrow> (nat \<times> nat) list \<Rightarrow> nat \<Rightarrow> bool" where
  "covers a [] b \<longleftrightarrow> a = b"
| "covers a ((cur, n) # rs) b \<longleftrightarrow> cur = a \<and> 0 < n \<and> covers (a + n) rs b"



text \<open>
  The scenario of two slots of four bytes on a target of ten bytes, with an environment
  in which the first write finishes while the second is still in progress.
\<close>

definition scenario_script :: "answer list" where
  "scenario_script =
     map ok [0, 0, 0, 0, 4, 4, EINPROGRESS, 0, 0, 0, 2, 0, 4, 0]"

subsection \<open>Completions and their byte counts\<close>

text \<open>The byte count a completed write reports through \<open>aio_return\<close>.\<close>

fun count_of :: "event \<Rightarrow> nat list" where
  "count_of (Aio_return i cb r) = (if 0 \<le> r then [nat r] else [])"
| "count_of _ = []"

definition counts :: "event list \<Rightarrow> nat list" where
  "counts t = concat (map count_of t)"

text \<open>The length that the collected write had requested.\<close>

fun request_of :: "event \<Rightarrow> nat list" where
  "request_of (Aio_return i cb r) = (if 0 \<le> r then [aio_nbytes cb] else [])"
| "request_of _ = []"

definition requests :: "event list \<Rightarrow> nat list" where
  "requests t = concat (map request_of t)"

text \<open>
  A completion reports the whole request, or at least no more than the request (the
  latter is what POSIX promises of a write).
\<close>

fun reports_all :: "event \<Rightarrow> bool" where
  "reports_all (Aio_return i cb r) \<longleftrightarrow> r = int (aio_nbytes cb)"
| "reports_all _ \<longleftrightarrow> True"

fun reports_no_more :: "event \<Rightarrow> bool" where
  "reports_no_more (Aio_return i cb r) \<longleftrightarrow> r \<le> int (aio_nbytes cb)"
| "reports_no_more _ \<longleftrightarrow> True"

text \<open>The bytes requested by the slots in the writing role.\<close>

definition pending :: "int \<Rightarrow> aiocb list \<Rightarrow> nat" where
  "pending wfd bs = sum_list (map (\<lambda>b. if aio_fildes b = wfd then aio_nbytes b else 0) bs)"

text \<open>
  The running total is the sum, in 64 bits, of the counts reported so far, and the
  requests collected so far together with those still pending make up the cursor.
\<close>

definition confirmed :: "state \<Rightarrow> bool" where
  "confirmed s \<longleftrightarrow> total_bytes s = sum_list (counts (trace s)) mod SIZE_MOD"

definition balanced :: "int \<Rightarrow> state \<Rightarrow> bool" where
  "balanced wfd s \<longleftrightarrow> sum_list (requests (trace s)) + pending wfd (bl s) = off s"

text \<open>
  One slot of four bytes on a target of four bytes, with an environment in which the
  only write completes after two bytes.
\<close>

definition short_write_script :: "answer list" where
  "short_write_script = map ok [0, 0, 0, 2, 0]"

text \<open>
  The sequence of ranges that cuts the target from \<open>cur\<close> on into pieces of the buffer
  size, the last one holding what is left.
\<close>

function chunks :: "nat \<Rightarrow> nat \<Rightarrow> nat \<Rightarrow> (nat \<times> nat) list" where
  "chunks C len cur =
     (if cur < len \<and> 0 < C
      then (cur, chunk C len cur) # chunks C len (cur + chunk C len cur)
      else [])"
  by pat_completeness auto
termination
  by (relation "measure (\<lambda>(C, len, cur). len - cur)") (auto simp: chunk_def min_def)

declare chunks.simps [simp del]

subsection \<open>Completion errors\<close>

text \<open>A write whose completion reports an error: \<open>aio_return\<close> gives a negative count.\<close>

fun completion_error :: "event \<Rightarrow> bool" where
  "completion_error (Aio_return i cb r) \<longleftrightarrow> r < 0"
| "completion_error _ \<longleftrightarrow> False"

fun is_dispatch :: "event \<Rightarrow> bool" where
  "is_dispatch (Aio_write i cb r) \<longleftrightarrow> True"
| "is_dispatch _ \<longleftrightarrow> False"

text \<open>What the pipeline still does once it gives up: print a message, release its list.\<close>

fun is_report :: "event \<Rightarrow> bool" where
  "is_report (Printf fmt args) \<longleftrightarrow> True"
| "is_report Free_list \<longleftrightarrow> True"
| "is_report _ \<longleftrightarrow> False"

text \<open>After the first completion error of a trace nothing but such reports follows.\<close>

fun aborts_at_error :: "event list \<Rightarrow> bool" where
  "aborts_at_error [] \<longleftrightarrow> True"
| "aborts_at_error (e # es) \<longleftrightarrow>
     (if completion_error e then list_all is_report es else aborts_at_error es)"

definition error_free :: "event list \<Rightarrow> bool" where
  "error_free t \<longleftrightarrow> list_all (\<lambda>e. \<not> completion_error e) t"

text \<open>
  Either no completion error has been seen, or the run has returned \<open>-1\<close> right after the
  first one.
\<close>

definition fails_fast :: "flow \<Rightarrow> state \<Rightarrow> bool" where
  "fails_fast fl s \<longleftrightarrow>
     aborts_at_error (trace s) \<and> (error_free (trace s) \<or> fl = Return (- 1))"

text \<open>
  Two environments with a failing write: in the first the write of slot 0 fails while the
  main loop still has ranges to assign, in the second the only write fails in the drain.
\<close>

definition sweep_error_script :: "answer list" where
  "sweep_error_script = map ok [0, 0, 0, 5] @ [failing 5]"

definition drain_error_script :: "answer list" where
  "drain_error_script = map ok [0, 0, 0] @ [failing 5]"

subsection \<open>Environments that let the run finish\<close>

text \<open>
  An answer that lets the calling code go on: the call did not fail and, for a poll, the
  write is no longer in progress.
\<close>

definition cooperative :: "answer \<Rightarrow> bool" where
  "cooperative a \<longleftrightarrow> 0 \<le> ret a \<and> ret a \<noteq> EINPROGRESS"

text \<open>The number of slots in the writing role.\<close>

definition in_flight :: "int \<Rightarrow> aiocb list \<Rightarrow> nat" where
  "in_flight wfd bs = sum_list (map (\<lambda>b. if aio_fildes b = wfd then 1 else 0) bs)"

text \<open>
  Enough answers are left for the rest of the run: five for every range still to be
  assigned (its dispatch, its poll, its collection, the refill and one wait), three for
  every write in flight, one for the flush, and one more for the wait that ends a round
  in which nothing has been refilled so far. \<open>fresh\<close> marks the head of a round.
\<close>

definition supplied :: "int \<Rightarrow> nat \<Rightarrow> nat \<Rightarrow> bool \<Rightarrow> state \<Rightarrow> bool" where
  "supplied wfd C len fresh s \<longleftrightarrow>
     list_all cooperative (script s) \<and>
     5 * length (chunks C len (off s)) + 3 * in_flight wfd (bl s)
       + (if fresh \<or> 0 < nread s then 1 else 2) \<le> length (script s)"

text \<open>The flush, where a trace has one, reported success.\<close>

fun flush_ok :: "event \<Rightarrow> bool" where
  "flush_ok (Fsync fd r) \<longleftrightarrow> r = 0"
| "flush_ok _ \<longleftrightarrow> True"

section \<open>Reasoning about runs\<close>

subsection \<open>Rules for calls and loops\<close>

lemma callE:
  assumes "call ev s k = (fl, s')"
  obtains (stuck) "script s = []" "fl = Stuck" "s' = s"
  | (answer) a as where "script s = a # as"
      "k (ret a) (s\<lparr>script := as, trace := trace s @ [ev (ret a)],
                    errno := (if ret a < 0 then eno a else errno s)\<rparr>) = (fl, s')"
  using assms by (auto simp: call_def split: list.splits)

lemma slot_body_Next_off:
  assumes "slot_body rfd wfd len i s = (Next, s')" and "off s < len"
  shows "off s' < len"
  using assms
  by (auto simp: slot_body_def dispatch_def complete_def refill_def call_def Let_def
      free_bl_list_def printf_def emit_def split: if_splits list.splits)

lemma for_slots_rule:
  assumes "for_slots rfd wfd len nbl i s = (fl, s')" and "I s" and "off s < len"
    and "\<And>i s fl s'. \<lbrakk>i < nbl; I s; off s < len; slot_body rfd wfd len i s = (fl, s')\<rbrakk>
                  \<Longrightarrow> K fl s' \<and> (fl = Next \<or> fl = Break \<longrightarrow> I s')"
    and "\<And>s. I s \<Longrightarrow> K Next s"
  shows "K fl s' \<and> (fl = Next \<longrightarrow> I s')"
  using assms
proof (induction rfd wfd len nbl i s rule: for_slots.induct)
  case (1 rfd wfd len nbl i s)
  note step = "1.prems"(4) and weaken = "1.prems"(5)
  show ?case
  proof (cases "i < nbl")
    case False
    with "1.prems"(1,2) weaken show ?thesis by simp
  next
    case True
    obtain f1 s1 where b: "slot_body rfd wfd len i s = (f1, s1)"
      by (cases "slot_body rfd wfd len i s")
    have k1: "K f1 s1 \<and> (f1 = Next \<or> f1 = Break \<longrightarrow> I s1)"
      using step [OF True "1.prems"(2,3) b] .
    show ?thesis
    proof (cases f1)
      case Next
      have o1: "off s1 < len" using b Next "1.prems"(3) slot_body_Next_off by blast
      from "1.prems"(1) True b Next have r: "for_slots rfd wfd len nbl (i + 1) s1 = (fl, s')"
        by simp
      from k1 Next have "I s1" by simp
      from "1.IH" [OF True b [symmetric] Next r this o1 step weaken] show ?thesis .
    next
      case Break
      with "1.prems"(1) True b have "fl = Next" "s' = s1" by simp_all
      with k1 Break weaken show ?thesis by simp
    next
      case (Return v)
      with "1.prems"(1) True b have "fl = Return v" "s' = s1" by simp_all
      with k1 Return show ?thesis by simp
    next
      case Stuck
      with "1.prems"(1) True b have "fl = Stuck" "s' = s1" by simp_all
      with k1 Stuck show ?thesis by simp
    qed
  qed
qed

lemma main_loop_rule:
  assumes "main_loop rfd wfd len nbl s = (fl, s')" and "I s"
    and "\<And>i s fl s'. \<lbrakk>i < nbl; I s; off s < len; slot_body rfd wfd len i s = (fl, s')\<rbrakk>
                  \<Longrightarrow> K fl s' \<and> (fl = Next \<or> fl = Break \<longrightarrow> I s')"
    and "\<And>s. I s \<Longrightarrow> K Next s"
    and "\<And>s. I s \<Longrightarrow> I (s\<lparr>nread := 0\<rparr>)"
    and "\<And>s fl s'. \<lbrakk>I s; stall s = (fl, s')\<rbrakk> \<Longrightarrow> K fl s' \<and> (fl = Next \<longrightarrow> I s')"
  shows "K fl s' \<and> (fl = Next \<longrightarrow> I s' \<and> len \<le> off s')"
  using assms
proof (induction rfd wfd len nbl s rule: main_loop.induct)
  case (1 rfd wfd len nbl s)
  note step = "1.prems"(3) and weaken = "1.prems"(4) and reset = "1.prems"(5)
    and stl = "1.prems"(6)
  show ?case
  proof (cases "off s < len")
    case False
    with "1.prems"(1,2) weaken show ?thesis by simp
  next
    case True
    obtain f1 s1 where f: "for_slots rfd wfd len nbl 0 (s\<lparr>nread := 0\<rparr>) = (f1, s1)"
      by (cases "for_slots rfd wfd len nbl 0 (s\<lparr>nread := 0\<rparr>)")
    have k1: "K f1 s1 \<and> (f1 = Next \<longrightarrow> I s1)"
    proof (rule for_slots_rule [where I = I and K = K, OF f _ _ step weaken])
      show "I (s\<lparr>nread := 0\<rparr>)" using "1.prems"(2) by (rule reset)
      show "off (s\<lparr>nread := 0\<rparr>) < len" using True by simp
    qed
    show ?thesis
    proof (cases "f1 = Next")
      case False
      with f "1.prems"(1) True have "fl = f1" "s' = s1"
        by (auto simp: dispatch_round_def split: flow.splits)
      with k1 False show ?thesis by simp
    next
      case n1: True
      obtain f2 s2 where st: "stall s1 = (f2, s2)" by (cases "stall s1")
      have r: "dispatch_round rfd wfd len nbl s = (f2, s2)"
        using f n1 st by (simp add: dispatch_round_def)
      have k2: "K f2 s2 \<and> (f2 = Next \<longrightarrow> I s2)" using stl [OF _ st] k1 n1 by simp
      show ?thesis
      proof (cases "f2 = Next")
        case False
        with r "1.prems"(1) True have "fl = f2" "s' = s2" by (auto split: flow.splits)
        with k2 False show ?thesis by simp
      next
        case n2: True
        with r "1.prems"(1) True have m: "main_loop rfd wfd len nbl s2 = (fl, s')" by simp
        from k2 n2 have "I s2" by simp
        from "1.IH" [OF True r [symmetric, unfolded n2] refl m this step weaken reset stl]
        show ?thesis .
      qed
    qed
  qed
qed


definition polled :: "nat \<Rightarrow> state \<Rightarrow> flow \<Rightarrow> state \<Rightarrow> bool" where
  "polled i s fl s' \<longleftrightarrow>
     bl s' = bl s \<and> off s' = off s \<and> total_bytes s' = total_bytes s \<and>
     (\<exists>rs. trace s' = trace s @ map (Aio_error i (bl s ! i)) rs \<and>
           (\<forall>r \<in> set (butlast rs). r = EINPROGRESS) \<and>
           (if fl = Next then rs \<noteq> [] \<and> last rs \<noteq> EINPROGRESS
            else fl = Stuck \<and> (\<forall>r \<in> set rs. r = EINPROGRESS)))"

lemma busy_wait_polled: "busy_wait i s = (fl, s') \<Longrightarrow> polled i s fl s'"
proof (induction i s rule: busy_wait.induct)
  case (1 i s)
  from "1.prems" have c: "call (Aio_error i (bl s ! i)) s (\<lambda>e s'.
       if e = EINPROGRESS then busy_wait i s' else (Next, s')) = (fl, s')"
    by (subst (asm) busy_wait.simps)
  from c show ?case
  proof (cases rule: callE)
    case stuck
    then show ?thesis by (auto simp: polled_def intro: exI [of _ "[]"])
  next
    case (answer a as)
    let ?s1 = "s\<lparr>script := as, trace := trace s @ [Aio_error i (bl s ! i) (ret a)],
                  errno := (if ret a < 0 then eno a else errno s)\<rparr>"
    show ?thesis
    proof (cases "ret a = EINPROGRESS")
      case False
      with answer have "fl = Next" "s' = ?s1" by simp_all
      then show ?thesis using False
        by (auto simp: polled_def intro!: exI [of _ "[ret a]"])
    next
      case True
      with answer have "busy_wait i ?s1 = (fl, s')" by simp
      from "1.IH" [OF answer(1) True this] obtain rs where
        rs: "bl s' = bl s" "off s' = off s" "total_bytes s' = total_bytes s"
          "trace s' = trace s @ Aio_error i (bl s ! i) (ret a) # map (Aio_error i (bl s ! i)) rs"
          "\<forall>r \<in> set (butlast rs). r = EINPROGRESS"
          "if fl = Next then rs \<noteq> [] \<and> last rs \<noteq> EINPROGRESS
            else fl = Stuck \<and> (\<forall>r \<in> set rs. r = EINPROGRESS)"
        by (auto simp: polled_def)
      show ?thesis unfolding polled_def
      proof (intro conjI exI [of _ "ret a # rs"])
        show "\<forall>r\<in>set (butlast (ret a # rs)). r = EINPROGRESS" using rs(5) True by auto
        show "if fl = Next then ret a # rs \<noteq> [] \<and> last (ret a # rs) \<noteq> EINPROGRESS
          else fl = Stuck \<and> (\<forall>r\<in>set (ret a # rs). r = EINPROGRESS)"
          using rs(6) True by auto
      qed (use rs in simp_all)
    qed
  qed
qed

lemma drain_rule:
  assumes "drain wfd nbl i s = (fl, s')" and "J i s" and "i \<le> nbl"
    and "\<And>i s fl s'. \<lbrakk>i < nbl; J i s; drain_slot wfd i s = (fl, s')\<rbrakk>
                  \<Longrightarrow> K fl s' \<and> (fl = Next \<longrightarrow> J (Suc i) s')"
    and "\<And>i s. J i s \<Longrightarrow> K Next s"
  shows "K fl s' \<and> (fl = Next \<longrightarrow> J nbl s')"
  using assms
proof (induction wfd nbl i s rule: drain.induct)
  case (1 wfd nbl i s)
  note step = "1.prems"(4) and weaken = "1.prems"(5)
  show ?case
  proof (cases "i < nbl")
    case False
    with "1.prems"(1,2,3) weaken [of i s] show ?thesis by simp
  next
    case True
    obtain f1 s1 where b: "drain_slot wfd i s = (f1, s1)" by (cases "drain_slot wfd i s")
    have k1: "K f1 s1 \<and> (f1 = Next \<longrightarrow> J (Suc i) s1)"
      using step [OF True "1.prems"(2) b] .
    show ?thesis
    proof (cases "f1 = Next")
      case False
      with "1.prems"(1) True b have "fl = f1" "s' = s1" by (auto split: flow.splits)
      with k1 False show ?thesis by simp
    next
      case n1: True
      with "1.prems"(1) True b have r: "drain wfd nbl (i + 1) s1 = (fl, s')" by simp
      from k1 n1 have j: "J (i + 1) s1" by simp
      from True have "i + 1 \<le> nbl" by simp
      from "1.IH" [OF True b [symmetric, unfolded n1] refl r j this step weaken]
      show ?thesis .
    qed
  qed
qed

subsection \<open>The arithmetic of a dispatch, freed of its wrap-around\<close>

lemma size_sub:
  assumes "cur < len" and "len < SIZE_MOD"
  shows "(len + SIZE_MOD - cur) mod SIZE_MOD = len - cur"
proof -
  have "len + SIZE_MOD - cur = (len - cur) + SIZE_MOD" using assms(1) by arith
  then have "(len + SIZE_MOD - cur) mod SIZE_MOD = ((len - cur) + SIZE_MOD) mod SIZE_MOD"
    by (rule arg_cong)
  also have "\<dots> = (len - cur) mod SIZE_MOD" by (rule mod_add_self2)
  also have "\<dots> = len - cur" by (rule mod_less) (use assms(2) in arith)
  finally show ?thesis .
qed

lemma dispatch_eq:
  assumes "shape rfd wfd C len nbl s" and "i < nbl" and "off s < len"
    and "len + C \<le> SIZE_MOD" and "0 < C"
  shows "dispatch wfd len i s =
     (let b = (bl s ! i)\<lparr>aio_fildes := wfd, aio_offset := off s,
                            aio_nbytes := chunk C len (off s)\<rparr>
      in call (Aio_write i b) (s\<lparr>bl := (bl s)[i := b]\<rparr>) (\<lambda>r s1.
           if r < 0
           then (Return (- 1), free_bl_list (printf ''Write error: %s'' [errno s1] s1))
           else (if len \<le> off s + chunk C len (off s) then Break else Next,
                 s1\<lparr>off := off s + chunk C len (off s)\<rparr>)))"
proof -
  have n: "aio_nbytes (bl s ! i) = C" and l: "i < length (bl s)"
    using assms by (auto simp: shape_def)
  have b1: "C + off s < SIZE_MOD" and b2: "len < SIZE_MOD"
    using assms(3,4,5) by arith+
  have m2: "(len + SIZE_MOD - off s) mod SIZE_MOD = len - off s"
    using assms(3) b2 by (rule size_sub)
  show ?thesis
  proof (cases "len \<le> C + off s")
    case True
    then have c: "chunk C len (off s) = len - off s" by (auto simp: chunk_def min_def)
    have m3: "off s + (len - off s) = len" using assms(3) by arith
    show ?thesis unfolding c
      by (simp add: dispatch_def Let_def call_def n l b1 b2 True m2 m3 split: list.splits)
  next
    case False
    then have c: "chunk C len (off s) = C" by (auto simp: chunk_def min_def)
    have m3: "(off s + C) mod SIZE_MOD = off s + C" using b1 by (simp add: add.commute)
    have e: "(bl s ! i)\<lparr>aio_fildes := wfd, aio_offset := off s, aio_nbytes := C\<rparr>
           = (bl s ! i)\<lparr>aio_fildes := wfd, aio_offset := off s\<rparr>"
      using n by (cases "bl s ! i") simp
    show ?thesis unfolding c e
      by (simp add: dispatch_def Let_def call_def n l b1 False m3 split: list.splits)
  qed
qed


lemma primed_shape:
  "primed rfd C nbl s \<Longrightarrow>
   shape rfd wfd C len nbl (get_bl_list_from_array nbl (s\<lparr>off := 0, total_bytes := 0\<rparr>))"
  by (auto simp: primed_def shape_def get_bl_list_from_array_def emit_def list_all_length)

lemma drain_skips:
  assumes "\<forall>j<nbl. aio_fildes (bl s ! j) \<noteq> wfd"
  shows "drain wfd nbl i s = (Next, s)"
  using assms
proof (induction wfd nbl i s rule: drain.induct)
  case (1 wfd nbl i s)
  show ?case
  proof (cases "i < nbl")
    case False
    then show ?thesis by simp
  next
    case True
    with "1.prems" have d: "drain_slot wfd i s = (Next, s)" by (simp add: drain_slot_def)
    from "1.IH" [OF True d [symmetric] refl "1.prems"] True d show ?thesis by simp
  qed
qed

subsection \<open>Roles and assigned ranges\<close>

lemma ranges_Nil [simp]: "ranges [] = []"
  by (simp add: ranges_def)

lemma ranges_append [simp]: "ranges (t @ u) = ranges t @ ranges u"
  by (simp add: ranges_def)

lemma ranges_Cons [simp]: "ranges (e # t) = range_of e @ ranges t"
  by (simp add: ranges_def)

lemma covers_snoc [simp]:
  "covers a (rs @ [(cur, n)]) b \<longleftrightarrow> covers a rs cur \<and> 0 < n \<and> b = cur + n"
  by (induction a rs b rule: covers.induct) auto

lemma chunk_facts:
  assumes "cur < len" and "0 < C"
  shows "0 < chunk C len cur" and "chunk C len cur \<le> C" and "cur + chunk C len cur \<le> len"
    and "chunk C len cur = C \<or> cur + chunk C len cur = len"
  using assms by (auto simp: chunk_def min_def)

lemma slot_body_cases:
  assumes "slot_body rfd wfd len i s = (fl, s')"
  obtains (reading) "aio_fildes (bl s ! i) = rfd" "dispatch wfd len i s = (fl, s')"
  | (writing) "aio_fildes (bl s ! i) \<noteq> rfd" "aio_fildes (bl s ! i) = wfd"
      "complete rfd i s = (fl, s')"
  | (neither) "aio_fildes (bl s ! i) \<noteq> rfd" "aio_fildes (bl s ! i) \<noteq> wfd"
      "fl = Next" "s' = s"
  using assms by (auto simp: slot_body_def split: if_splits)

lemma slot_body_shape:
  assumes "shape rfd wfd C len nbl s" and "i < nbl" and "off s < len"
    and "len + C \<le> SIZE_MOD" and "0 < C"
    and "slot_body rfd wfd len i s = (fl, s')" and "fl = Next \<or> fl = Break"
  shows "shape rfd wfd C len nbl s'"
  using assms(6)
proof (cases rule: slot_body_cases)
  case reading
  show ?thesis
    using reading(2) [unfolded dispatch_eq [OF assms(1-5)]] assms(1,2,3,7)
      chunk_facts [OF assms(3,5)]
    by (auto simp: Let_def call_def shape_def nth_list_update split: list.splits if_splits)
next
  case writing
  show ?thesis using writing(3) assms(1,2,3,7)
    by (auto simp: complete_def refill_def Let_def call_def shape_def nth_list_update
        split: list.splits if_splits)
next
  case neither
  with assms(1) show ?thesis by simp
qed




lemma ranges_errors [simp]: "ranges (map (Aio_error i cb) rs) = []"
  by (induction rs) auto


lemma stall_frame:
  assumes "stall s = (fl, s')"
  shows "bl s' = bl s" and "off s' = off s" and "total_bytes s' = total_bytes s"
    and "\<exists>es. trace s' = trace s @ es \<and> list_all (\<lambda>e. \<not> is_aio e) es"
  using assms
  by (auto simp: stall_def call_def free_bl_list_def printf_def emit_def
      split: if_splits list.splits)

lemma ranges_quiet [simp]: "list_all (\<lambda>e. \<not> is_aio e) es \<Longrightarrow> ranges es = []"
proof (induction es)
  case Nil
  show ?case by simp
next
  case (Cons e es)
  then show ?case by (cases e) auto
qed



lemma shred_from_cases:
  assumes "shred_from rfd wfd nbl len s = (fl, s')"
  obtains (looping) "fl \<noteq> Next"
      "main_loop rfd wfd len nbl
         (get_bl_list_from_array nbl (s\<lparr>off := 0, total_bytes := 0\<rparr>)) = (fl, s')"
  | (draining) s1 where "fl \<noteq> Next"
      "main_loop rfd wfd len nbl
         (get_bl_list_from_array nbl (s\<lparr>off := 0, total_bytes := 0\<rparr>)) = (Next, s1)"
      "drain wfd nbl 0 (free_bl_list s1) = (fl, s')"
  | (flushing) s1 s2 where
      "main_loop rfd wfd len nbl
         (get_bl_list_from_array nbl (s\<lparr>off := 0, total_bytes := 0\<rparr>)) = (Next, s1)"
      "drain wfd nbl 0 (free_bl_list s1) = (Next, s2)"
      "flush wfd s2 = (fl, s')"
  using assms unfolding shred_from_def
  by (auto split: prod.splits flow.splits)

lemma flush_cases:
  assumes "flush wfd s = (fl, s')"
  obtains (stuck) "script s = []" "fl = Stuck" "s' = s"
  | (failed) a as where "script s = a # as" "ret a \<noteq> 0" "fl = Return (- 1)"
      "s' = (printf ''Failed to flush writes, error %d: %s'' [ret a, ret a]
               (s\<lparr>script := as, trace := trace s @ [Fsync wfd (ret a)],
                   errno := (if ret a < 0 then eno a else errno s)\<rparr>))\<lparr>errno := ret a\<rparr>"
  | (flushed) a as where "script s = a # as" "ret a = 0"
      "fl = Return (to_ssize (total_bytes s))"
      "s' = s\<lparr>script := as, trace := trace s @ [Fsync wfd 0]\<rparr>"
  using assms
  by (auto simp: flush_def call_def split: list.splits if_splits)

lemma return_minus_one:
  assumes "slot_body rfd wfd len i s = (Return v, s')"
  shows "v = - 1"
  using assms
  by (auto simp: slot_body_def dispatch_def complete_def refill_def Let_def call_def
      split: if_splits list.splits)

lemma main_loop_return:
  assumes "main_loop rfd wfd len nbl s = (Return v, s')"
  shows "v = - 1"
proof -
  let ?K = "\<lambda>fl (s::state). \<forall>v. fl = Return v \<longrightarrow> v = - 1"
  have "?K (Return v) s' \<and> (Return v = Next \<longrightarrow> True \<and> len \<le> off s')"
  proof (rule main_loop_rule [where I = "\<lambda>s. True" and K = ?K, OF assms])
    fix i s fl s'
    assume "slot_body rfd wfd len i s = (fl, s')"
    then show "?K fl s' \<and> (fl = Next \<or> fl = Break \<longrightarrow> True)"
      by (auto dest: return_minus_one)
  next
    fix s fl s' assume "stall s = (fl, s')"
    then show "?K fl s' \<and> (fl = Next \<longrightarrow> True)"
      by (auto simp: stall_def call_def split: if_splits list.splits)
  qed simp_all
  then show ?thesis by simp
qed

lemma drain_slot_cases:
  assumes "drain_slot wfd i s = (fl, s')"
  obtains (skipped) "aio_fildes (bl s ! i) \<noteq> wfd" "fl = Next" "s' = s"
  | (waiting) "aio_fildes (bl s ! i) = wfd" "fl = Stuck" "polled i s Stuck s'"
  | (unanswered) s1 where "aio_fildes (bl s ! i) = wfd" "fl = Stuck" "polled i s Next s1"
      "script s1 = []" "s' = s1"
  | (failed) s1 a as where "aio_fildes (bl s ! i) = wfd" "polled i s Next s1"
      "script s1 = a # as" "ret a < 0" "fl = Return (- 1)"
      "s' = printf ''Final write completion error: %s'' [eno a]
              (s1\<lparr>script := as, trace := trace s1 @ [Aio_return i (bl s ! i) (ret a)],
                  errno := eno a\<rparr>)"
  | (collected) s1 a as where "aio_fildes (bl s ! i) = wfd" "polled i s Next s1"
      "script s1 = a # as" "0 \<le> ret a" "fl = Next"
      "s' = s1\<lparr>script := as, trace := trace s1 @ [Aio_return i (bl s ! i) (ret a)],
                total_bytes := (total_bytes s + nat (ret a)) mod SIZE_MOD\<rparr>"
proof (cases "aio_fildes (bl s ! i) = wfd")
  case False
  with assms have "fl = Next" "s' = s" by (simp_all add: drain_slot_def)
  with False show ?thesis by (rule skipped)
next
  case True
  obtain f1 s1 where b: "busy_wait i s = (f1, s1)" by (cases "busy_wait i s")
  then have p: "polled i s f1 s1" by (rule busy_wait_polled)
  then have f1: "f1 = Next \<or> f1 = Stuck" by (auto simp: polled_def split: if_splits)
  show ?thesis
  proof (cases "f1 = Next")
    case False
    with f1 have st: "f1 = Stuck" by simp
    with assms True b have "fl = Stuck" "s' = s1" by (simp_all add: drain_slot_def)
    with p st have "polled i s Stuck s'" by simp
    with True \<open>fl = Stuck\<close> show ?thesis by (rule waiting)
  next
    case n: True
    have e: "bl s1 = bl s" "total_bytes s1 = total_bytes s" using p by (auto simp: polled_def)
    from p n have p1: "polled i s Next s1" by simp
    from assms True b n have c: "call (Aio_return i (bl s ! i)) s1 (\<lambda>bcnt s.
               if bcnt < 0
               then (Return (- 1), printf ''Final write completion error: %s'' [errno s] s)
               else (Next, s\<lparr>total_bytes := (total_bytes s + nat bcnt) mod SIZE_MOD\<rparr>))
            = (fl, s')"
      by (simp add: drain_slot_def e)
    from c show ?thesis
    proof (cases rule: callE)
      case stuck
      from True stuck(2) p1 stuck(1,3) show ?thesis by (rule unanswered)
    next
      case (answer a as)
      show ?thesis
      proof (cases "ret a < 0")
        case neg: True
        with answer(2) have "fl = Return (- 1)"
          "s' = printf ''Final write completion error: %s'' [eno a]
              (s1\<lparr>script := as, trace := trace s1 @ [Aio_return i (bl s ! i) (ret a)],
                  errno := eno a\<rparr>)"
          by auto
        with True p1 answer(1) neg show ?thesis by (rule failed)
      next
        case False
        then have nn: "0 \<le> ret a" by simp
        from False answer(2) e have "fl = Next"
          "s' = s1\<lparr>script := as, trace := trace s1 @ [Aio_return i (bl s ! i) (ret a)],
                total_bytes := (total_bytes s + nat (ret a)) mod SIZE_MOD\<rparr>"
          by auto
        with True p1 answer(1) nn show ?thesis by (rule collected)
      qed
    qed
  qed
qed

lemma ranges_polled:
  "polled i s fl s' \<Longrightarrow> ranges (trace s') = ranges (trace s)"
  by (auto simp: polled_def)

lemma drain_slot_frame:
  assumes "drain_slot wfd i s = (fl, s')"
  shows "bl s' = bl s \<and> off s' = off s \<and> ranges (trace s') = ranges (trace s)"
  using assms
proof (cases rule: drain_slot_cases)
  case waiting
  then show ?thesis by (auto simp: polled_def)
next
  case (unanswered s1)
  then show ?thesis by (auto simp: polled_def)
next
  case (failed s1 a as)
  then show ?thesis by (auto simp: polled_def)
next
  case (collected s1 a as)
  then show ?thesis by (auto simp: polled_def)
qed simp

lemma drain_frame:
  assumes "drain wfd nbl i s = (fl, s')" and "i \<le> nbl"
  shows "bl s' = bl s \<and> off s' = off s \<and> ranges (trace s') = ranges (trace s)"
proof -
  let ?J = "\<lambda>(i::nat) s1. bl s1 = bl s \<and> off s1 = off s \<and> ranges (trace s1) = ranges (trace s)"
  let ?K = "\<lambda>(fl::flow) s1. bl s1 = bl s \<and> off s1 = off s \<and> ranges (trace s1) = ranges (trace s)"
  have "?K fl s' \<and> (fl = Next \<longrightarrow> ?J nbl s')"
  proof (rule drain_rule [where J = ?J and K = ?K, OF assms(1) _ assms(2)])
    fix i s1 fl s2
    assume "?J i s1" "drain_slot wfd i s1 = (fl, s2)"
    then show "?K fl s2 \<and> (fl = Next \<longrightarrow> ?J (Suc i) s2)"
      using drain_slot_frame by fastforce
  qed simp_all
  then show ?thesis by simp
qed

lemma drain_return:
  assumes "drain wfd nbl i s = (Return v, s')" and "i \<le> nbl"
  shows "v = - 1"
proof -
  let ?K = "\<lambda>fl (s::state). \<forall>v. fl = Return v \<longrightarrow> v = - 1"
  have "?K (Return v) s' \<and> (Return v = Next \<longrightarrow> True)"
  proof (rule drain_rule [where J = "\<lambda>i s. True" and K = ?K, OF assms(1) _ assms(2)])
    fix i s fl s'
    assume "drain_slot wfd i s = (fl, s')"
    then show "?K fl s' \<and> (fl = Next \<longrightarrow> True)"
      by (cases rule: drain_slot_cases) auto
  qed simp_all
  then show ?thesis by simp
qed

lemma to_ssize_small: "n < 2 ^ 63 \<Longrightarrow> to_ssize n = int n"
  by (simp add: to_ssize_def SIZE_MOD_def)






lemma busy_wait_unfold:
  "busy_wait i s =
     (case script s of
        [] \<Rightarrow> (Stuck, s)
      | a # as \<Rightarrow>
          (if ret a = EINPROGRESS
           then busy_wait i (s\<lparr>script := as,
                  trace := trace s @ [Aio_error i (bl s ! i) (ret a)],
                  errno := (if ret a < 0 then eno a else errno s)\<rparr>)
           else (Next, s\<lparr>script := as,
                  trace := trace s @ [Aio_error i (bl s ! i) (ret a)],
                  errno := (if ret a < 0 then eno a else errno s)\<rparr>)))"
  by (subst busy_wait.simps) (simp add: call_def split: list.splits)

lemma pool_2: "pool rfd C 2 = [\<lparr>aio_fildes = rfd, aio_offset = 0, aio_nbytes = C\<rparr>,
                               \<lparr>aio_fildes = rfd, aio_offset = 0, aio_nbytes = C\<rparr>]"
  by (simp add: pool_def numeral_2_eq_2)

lemmas run_simps =
  shred_from_def get_bl_list_from_array_def free_bl_list_def emit_def printf_def
  dispatch_round_def slot_body_def dispatch_def complete_def refill_def stall_def
  drain_slot_def flush_def call_def busy_wait_unfold
  start_def ok_def failing_def EINPROGRESS_def SIZE_MOD_def to_ssize_def Let_def

lemma scenario_run:
  "shred_from 3 4 2 10 (start (pool 3 4 2) scenario_script) =
     (Return 10,
      \<lparr>bl = [\<lparr>aio_fildes = 4, aio_offset = 8, aio_nbytes = 2\<rparr>,
             \<lparr>aio_fildes = 4, aio_offset = 4, aio_nbytes = 4\<rparr>],
       off = 10, total_bytes = 10, nread = 0, total_size = 0, errno = 0, script = [],
       stdout_errno = [],
       trace =
         [Malloc_list 2,
          Aio_write 0 \<lparr>aio_fildes = 4, aio_offset = 0, aio_nbytes = 4\<rparr> 0,
          Aio_write 1 \<lparr>aio_fildes = 4, aio_offset = 4, aio_nbytes = 4\<rparr> 0,
          Aio_suspend 0,
          Aio_error 0 \<lparr>aio_fildes = 4, aio_offset = 0, aio_nbytes = 4\<rparr> 0,
          Aio_return 0 \<lparr>aio_fildes = 4, aio_offset = 0, aio_nbytes = 4\<rparr> 4,
          Read 3 0 4 4,
          Aio_error 1 \<lparr>aio_fildes = 4, aio_offset = 4, aio_nbytes = 4\<rparr> 36,
          Aio_write 0 \<lparr>aio_fildes = 4, aio_offset = 8, aio_nbytes = 2\<rparr> 0,
          Aio_suspend 0, Free_list,
          Aio_error 0 \<lparr>aio_fildes = 4, aio_offset = 8, aio_nbytes = 2\<rparr> 0,
          Aio_return 0 \<lparr>aio_fildes = 4, aio_offset = 8, aio_nbytes = 2\<rparr> 2,
          Aio_error 1 \<lparr>aio_fildes = 4, aio_offset = 4, aio_nbytes = 4\<rparr> 0,
          Aio_return 1 \<lparr>aio_fildes = 4, aio_offset = 4, aio_nbytes = 4\<rparr> 4,
          Fsync 4 0]\<rparr>)"
  by (simp add: run_simps pool_2 scenario_script_def)


lemma size_room: "len < 2 ^ 63 \<Longrightarrow> C < 2 ^ 63 \<Longrightarrow> len + C \<le> SIZE_MOD"
  by (simp add: SIZE_MOD_def)

lemma primed_scenario: "primed 3 4 2 (start (pool 3 4 2) scenario_script)"
  by (simp add: primed_def start_def pool_2)

subsection \<open>The running total\<close>

lemma counts_Nil [simp]: "counts [] = []"
  by (simp add: counts_def)

lemma counts_append [simp]: "counts (t @ u) = counts t @ counts u"
  by (simp add: counts_def)

lemma counts_Cons [simp]: "counts (e # t) = count_of e @ counts t"
  by (simp add: counts_def)

lemma requests_Nil [simp]: "requests [] = []"
  by (simp add: requests_def)

lemma requests_append [simp]: "requests (t @ u) = requests t @ requests u"
  by (simp add: requests_def)

lemma requests_Cons [simp]: "requests (e # t) = request_of e @ requests t"
  by (simp add: requests_def)

lemma counts_quiet [simp]: "list_all (\<lambda>e. \<not> is_aio e) es \<Longrightarrow> counts es = []"
proof (induction es)
  case Nil
  show ?case by simp
next
  case (Cons e es)
  then show ?case by (cases e) auto
qed

lemma requests_quiet [simp]: "list_all (\<lambda>e. \<not> is_aio e) es \<Longrightarrow> requests es = []"
proof (induction es)
  case Nil
  show ?case by simp
next
  case (Cons e es)
  then show ?case by (cases e) auto
qed

lemma counts_errors [simp]: "counts (map (Aio_error i cb) rs) = []"
  by (induction rs) auto

lemma requests_errors [simp]: "requests (map (Aio_error i cb) rs) = []"
  by (induction rs) auto

lemma mod_add_left_nat: "((a mod m) + b) mod m = (a + b) mod (m::nat)"
  by (simp add: mod_add_left_eq)

lemma slot_body_confirmed:
  assumes "slot_body rfd wfd len i s = (fl, s')" and "confirmed s"
  shows "confirmed s'"
  using assms(1)
proof (cases rule: slot_body_cases)
  case reading
  show ?thesis using reading(2) assms(2)
    by (auto simp: dispatch_def Let_def call_def confirmed_def free_bl_list_def printf_def
        emit_def split: list.splits if_splits)
next
  case writing
  show ?thesis using writing(3) assms(2)
    by (auto simp: complete_def refill_def Let_def call_def confirmed_def free_bl_list_def
        printf_def emit_def mod_add_left_nat split: list.splits if_splits)
next
  case neither
  with assms(2) show ?thesis by simp
qed

lemma sum_list_map_update:
  fixes f :: "'a \<Rightarrow> nat"
  shows "i < length xs \<Longrightarrow>
         sum_list (map f (xs[i := y])) + f (xs ! i) = sum_list (map f xs) + f y"
proof (induction xs arbitrary: i)
  case Nil
  then show ?case by simp
next
  case (Cons x xs)
  show ?case
  proof (cases i)
    case 0
    then show ?thesis by simp
  next
    case (Suc j)
    with Cons.prems have "j < length xs" by simp
    from Cons.IH [OF this] Suc show ?thesis by simp
  qed
qed

lemma pending_update:
  "i < length bs \<Longrightarrow>
   pending wfd (bs[i := b]) + (if aio_fildes (bs ! i) = wfd then aio_nbytes (bs ! i) else 0)
   = pending wfd bs + (if aio_fildes b = wfd then aio_nbytes b else 0)"
  unfolding pending_def by (rule sum_list_map_update)

lemma slot_body_balanced:
  assumes "shape rfd wfd C len nbl s" and "i < nbl" and "off s < len"
    and "len + C \<le> SIZE_MOD" and "0 < C" and "rfd \<noteq> wfd"
    and "slot_body rfd wfd len i s = (fl, s')" and "fl = Next \<or> fl = Break"
    and "balanced wfd s"
  shows "balanced wfd s'"
  using assms(7)
proof (cases rule: slot_body_cases)
  case reading
  have l: "i < length (bl s)" using assms(1,2) by (simp add: shape_def)
  let ?b = "(bl s ! i)\<lparr>aio_fildes := wfd, aio_offset := off s,
                          aio_nbytes := chunk C len (off s)\<rparr>"
  have p: "pending wfd ((bl s)[i := ?b]) = pending wfd (bl s) + chunk C len (off s)"
    using pending_update [OF l, of wfd ?b] reading(1) assms(6) by simp
  show ?thesis
    using reading(2) [unfolded dispatch_eq [OF assms(1-5)]] assms(8,9) p
    by (auto simp: Let_def call_def balanced_def split: list.splits if_splits)
next
  case writing
  have l: "i < length (bl s)" using assms(1,2) by (simp add: shape_def)
  let ?b = "(bl s ! i)\<lparr>aio_fildes := rfd\<rparr>"
  have p: "pending wfd ((bl s)[i := ?b]) + aio_nbytes (bl s ! i) = pending wfd (bl s)"
    using pending_update [OF l, of wfd ?b] writing(2) assms(6) by simp
  show ?thesis
    using writing(3) assms(8,9) p
    by (auto simp: complete_def refill_def Let_def call_def balanced_def
        split: list.splits if_splits)
next
  case neither
  with assms(9) show ?thesis by simp
qed


lemma stall_counts:
  assumes "stall s = (fl, s')"
  shows "counts (trace s') = counts (trace s)" and "requests (trace s') = requests (trace s)"
    and "ranges (trace s') = ranges (trace s)"
  using stall_frame(4) [OF assms] by auto

lemma main_loop_balanced:
  assumes "main_loop rfd wfd len nbl s = (fl, s')"
    and "shape rfd wfd C len nbl s" and "confirmed s" and "balanced wfd s"
    and "len + C \<le> SIZE_MOD" and "0 < C" and "rfd \<noteq> wfd"
  shows "confirmed s' \<and>
         (fl = Next \<longrightarrow> length (bl s') = nbl \<and> balanced wfd s' \<and> off s' = len)"
proof -
  let ?I = "\<lambda>s. shape rfd wfd C len nbl s \<and> confirmed s \<and> balanced wfd s"
  let ?K = "\<lambda>(fl::flow) s. confirmed s"
  have r: "?K fl s' \<and> (fl = Next \<longrightarrow> ?I s' \<and> len \<le> off s')"
  proof (rule main_loop_rule [where I = ?I and K = ?K, OF assms(1)])
    show "?I s" using assms(2,3,4) by simp
  next
    fix i s fl s'
    assume a: "i < nbl" "?I s" "off s < len" "slot_body rfd wfd len i s = (fl, s')"
    from a(2) have sh: "shape rfd wfd C len nbl s" and cf: "confirmed s"
      and ba: "balanced wfd s" by simp_all
    have "confirmed s'" using a(4) cf by (rule slot_body_confirmed)
    moreover have "fl = Next \<or> fl = Break \<Longrightarrow> shape rfd wfd C len nbl s'"
      using sh a(1,3) assms(5,6) a(4) by (rule slot_body_shape)
    moreover have "fl = Next \<or> fl = Break \<Longrightarrow> balanced wfd s'"
      using sh a(1,3) assms(5,6,7) a(4) _ ba by (rule slot_body_balanced)
    ultimately show "?K fl s' \<and> (fl = Next \<or> fl = Break \<longrightarrow> ?I s')" by blast
  next
    fix s assume "?I s"
    then show "?I (s\<lparr>nread := 0\<rparr>)" by (simp add: shape_def confirmed_def balanced_def)
  next
    fix s fl s' assume a: "?I s" "stall s = (fl, s')"
    from stall_frame(1-3) [OF a(2)] stall_counts [OF a(2)] a(1)
    have "?I s'" by (auto simp: shape_def confirmed_def balanced_def)
    then show "?K fl s' \<and> (fl = Next \<longrightarrow> ?I s')" by simp
  qed simp
  then show ?thesis by (auto simp: shape_def)
qed

text \<open>In the drain, the slots from index \<open>i\<close> on are those not yet looked at.\<close>

lemma pending_drop:
  "i < length bs \<Longrightarrow>
   pending wfd (drop i bs) =
     (if aio_fildes (bs ! i) = wfd then aio_nbytes (bs ! i) else 0) + pending wfd (drop (Suc i) bs)"
  by (simp add: pending_def Cons_nth_drop_Suc [symmetric])

lemma drain_balanced:
  assumes "drain wfd nbl 0 s = (fl, s')" and "length (bl s) = nbl"
    and "confirmed s" and "sum_list (requests (trace s)) + pending wfd (bl s) = len"
  shows "confirmed s' \<and> (fl = Next \<longrightarrow> sum_list (requests (trace s')) = len)"
proof -
  let ?J = "\<lambda>i s. length (bl s) = nbl \<and> confirmed s \<and>
              sum_list (requests (trace s)) + pending wfd (drop i (bl s)) = len"
  let ?K = "\<lambda>(fl::flow) s. confirmed s"
  have "?K fl s' \<and> (fl = Next \<longrightarrow> ?J nbl s')"
  proof (rule drain_rule [where J = ?J and K = ?K, OF assms(1)])
    show "?J 0 s" using assms(2,3,4) by simp
  next
    fix i s fl s'
    assume a: "i < nbl" "?J i s" "drain_slot wfd i s = (fl, s')"
    from a(1,2) have l: "i < length (bl s)" by simp
    note pd = pending_drop [OF l, of wfd]
    from a(3) show "?K fl s' \<and> (fl = Next \<longrightarrow> ?J (Suc i) s')"
    proof (cases rule: drain_slot_cases)
      case skipped
      with a(2) pd show ?thesis by simp
    next
      case waiting
      with a(2) show ?thesis by (auto simp: polled_def confirmed_def)
    next
      case (unanswered s1)
      with a(2) show ?thesis by (auto simp: polled_def confirmed_def)
    next
      case (failed s1 a as)
      with a(2) show ?thesis by (auto simp: polled_def confirmed_def)
    next
      case (collected s1 a as)
      with a(2) pd show ?thesis
        by (auto simp: polled_def confirmed_def mod_add_left_nat)
    qed
  qed simp_all
  then show ?thesis by (auto simp: pending_def)
qed

lemma counts_requests:
  "list_all reports_all t \<Longrightarrow> counts t = requests t"
proof (induction t)
  case Nil
  show ?case by simp
next
  case (Cons e t)
  then show ?case by (cases e) auto
qed

lemma counts_le_requests:
  "list_all reports_no_more t \<Longrightarrow> sum_list (counts t) \<le> sum_list (requests t)"
proof (induction t)
  case Nil
  show ?case by simp
next
  case (Cons e t)
  then show ?case by (cases e) auto
qed

lemma to_ssize_mod [simp]: "to_ssize (n mod SIZE_MOD) = to_ssize n"
  by (simp add: to_ssize_def)

lemma shred_from_total:
  assumes "shred_from rfd wfd nbl len s = (Return v, s')" and "0 \<le> v"
    and "primed rfd C nbl s" and "len + C \<le> SIZE_MOD" and "0 < C" and "rfd \<noteq> wfd"
  shows "v = to_ssize (sum_list (counts (trace s'))) \<and> sum_list (requests (trace s')) = len"
proof -
  let ?s0 = "get_bl_list_from_array nbl (s\<lparr>off := 0, total_bytes := 0\<rparr>)"
  have sh: "shape rfd wfd C len nbl ?s0" using assms(3) by (rule primed_shape)
  have q: "counts (trace s) = []" "requests (trace s) = []"
    using assms(3) by (simp_all add: primed_def)
  have cf: "confirmed ?s0" using q
    by (simp add: confirmed_def get_bl_list_from_array_def emit_def)
  have "pending wfd (bl s) = 0" using assms(3,6)
    by (auto simp: primed_def pending_def list_all_iff)
  then have ba: "balanced wfd ?s0" using q
    by (simp add: balanced_def get_bl_list_from_array_def emit_def)
  note ml = main_loop_balanced [OF _ sh cf ba assms(4,5,6)]
  from assms(1) show ?thesis
  proof (cases rule: shred_from_cases)
    case looping
    from main_loop_return [OF looping(2)] assms(2) show ?thesis by simp
  next
    case (draining s1)
    from drain_return [OF draining(3)] assms(2) show ?thesis by simp
  next
    case (flushing s1 s2)
    from ml [OF flushing(1)]
    have 1: "confirmed s1" "length (bl s1) = nbl" "balanced wfd s1" "off s1 = len" by simp_all
    have "confirmed s2 \<and> (Next = Next \<longrightarrow> sum_list (requests (trace s2)) = len)"
    proof (rule drain_balanced [OF flushing(2)])
      show "length (bl (free_bl_list s1)) = nbl" using 1(2) by (simp add: free_bl_list_def emit_def)
      show "confirmed (free_bl_list s1)" using 1(1)
        by (simp add: confirmed_def free_bl_list_def emit_def)
      show "sum_list (requests (trace (free_bl_list s1))) + pending wfd (bl (free_bl_list s1)) = len"
        using 1(3,4) by (simp add: balanced_def free_bl_list_def emit_def)
    qed
    then have 2: "confirmed s2" "sum_list (requests (trace s2)) = len" by simp_all
    from flushing(3) show ?thesis
    proof (cases rule: flush_cases)
      case stuck
      then show ?thesis by simp
    next
      case (failed a as)
      with assms(2) show ?thesis by simp
    next
      case (flushed a as)
      with 2 show ?thesis by (simp add: confirmed_def)
    qed
  qed
qed

lemma pool_1: "pool rfd C (Suc 0) = [\<lparr>aio_fildes = rfd, aio_offset = 0, aio_nbytes = C\<rparr>]"
  by (simp add: pool_def)

lemma short_write_run:
  "shred_from 3 4 1 4 (start (pool 3 4 1) short_write_script) =
     (Return 2,
      \<lparr>bl = [\<lparr>aio_fildes = 4, aio_offset = 0, aio_nbytes = 4\<rparr>],
       off = 4, total_bytes = 2, nread = 0, total_size = 0, errno = 0, script = [],
       stdout_errno = [],
       trace =
         [Malloc_list 1,
          Aio_write 0 \<lparr>aio_fildes = 4, aio_offset = 0, aio_nbytes = 4\<rparr> 0,
          Aio_suspend 0, Free_list,
          Aio_error 0 \<lparr>aio_fildes = 4, aio_offset = 0, aio_nbytes = 4\<rparr> 0,
          Aio_return 0 \<lparr>aio_fildes = 4, aio_offset = 0, aio_nbytes = 4\<rparr> 2,
          Fsync 4 0]\<rparr>)"
  by (simp add: run_simps pool_1 short_write_script_def)

subsection \<open>The sequence of dispatched ranges\<close>

lemma chunks_done [simp]: "\<not> (cur < len \<and> 0 < C) \<Longrightarrow> chunks C len cur = []"
  by (subst chunks.simps) simp

lemma chunks_step [simp]:
  "cur < len \<Longrightarrow> 0 < C \<Longrightarrow>
   chunks C len cur = (cur, chunk C len cur) # chunks C len (cur + chunk C len cur)"
  by (subst chunks.simps) simp






subsection \<open>Failing at the first completion error\<close>

lemma error_free_Nil [simp]: "error_free []"
  by (simp add: error_free_def)

lemma error_free_append [simp]: "error_free (t @ u) \<longleftrightarrow> error_free t \<and> error_free u"
  by (simp add: error_free_def)

lemma error_free_Cons [simp]: "error_free (e # t) \<longleftrightarrow> \<not> completion_error e \<and> error_free t"
  by (simp add: error_free_def)

lemma error_free_quiet: "list_all (\<lambda>e. \<not> is_aio e) t \<Longrightarrow> error_free t"
proof (induction t)
  case Nil
  show ?case by simp
next
  case (Cons e t)
  then show ?case by (cases e) auto
qed

lemma error_free_errors [simp]: "error_free (map (Aio_error i cb) rs)"
  by (induction rs) auto

lemma error_free_aborts [simp]:
  "error_free t \<Longrightarrow> aborts_at_error (t @ u) \<longleftrightarrow> aborts_at_error u"
  by (induction t) auto

lemma error_free_aborts' [simp]: "error_free t \<Longrightarrow> aborts_at_error t"
  using error_free_aborts [of t "[]"] by simp

lemma aborts_split:
  "aborts_at_error (pre @ e # post) \<Longrightarrow> completion_error e \<Longrightarrow> list_all is_report post"
proof (induction pre)
  case Nil
  then show ?case by simp
next
  case (Cons x pre)
  show ?case
  proof (cases "completion_error x")
    case True
    with Cons.prems(1) have "is_report e" by simp
    with Cons.prems(2) show ?thesis by (cases e) auto
  next
    case False
    with Cons show ?thesis by simp
  qed
qed

lemma fails_fast_weaken: "error_free (trace s) \<Longrightarrow> fails_fast fl s"
  by (simp add: fails_fast_def)

lemma slot_body_fails_fast:
  assumes "slot_body rfd wfd len i s = (fl, s')" and "error_free (trace s)"
  shows "fails_fast fl s' \<and> (fl = Next \<or> fl = Break \<longrightarrow> error_free (trace s'))"
  using assms(1)
proof (cases rule: slot_body_cases)
  case reading
  show ?thesis using reading(2) assms(2)
    by (auto simp: dispatch_def Let_def call_def fails_fast_def free_bl_list_def printf_def
        emit_def split: list.splits if_splits)
next
  case writing
  show ?thesis using writing(3) assms(2)
    by (auto simp: complete_def refill_def Let_def call_def fails_fast_def free_bl_list_def
        printf_def emit_def split: list.splits if_splits)
next
  case neither
  with assms(2) show ?thesis by (simp add: fails_fast_def)
qed

lemma stall_error_free:
  assumes "stall s = (fl, s')" and "error_free (trace s)"
  shows "error_free (trace s')"
  using stall_frame(4) [OF assms(1)] assms(2) by (auto dest: error_free_quiet)

lemma main_loop_fails_fast:
  assumes "main_loop rfd wfd len nbl s = (fl, s')" and "error_free (trace s)"
  shows "fails_fast fl s' \<and> (fl = Next \<longrightarrow> error_free (trace s'))"
proof -
  let ?I = "\<lambda>s. error_free (trace s)"
  have "fails_fast fl s' \<and> (fl = Next \<longrightarrow> ?I s' \<and> len \<le> off s')"
  proof (rule main_loop_rule [where I = ?I and K = fails_fast, OF assms(1)])
    fix i s fl s'
    assume "?I s" "slot_body rfd wfd len i s = (fl, s')"
    then show "fails_fast fl s' \<and> (fl = Next \<or> fl = Break \<longrightarrow> ?I s')"
      using slot_body_fails_fast by blast
  next
    fix s fl s' assume "?I s" "stall s = (fl, s')"
    then show "fails_fast fl s' \<and> (fl = Next \<longrightarrow> ?I s')"
      using stall_error_free fails_fast_weaken by blast
  qed (use assms(2) in \<open>simp_all add: fails_fast_weaken\<close>)
  then show ?thesis by simp
qed

lemma drain_fails_fast:
  assumes "drain wfd nbl 0 s = (fl, s')" and "error_free (trace s)"
  shows "fails_fast fl s' \<and> (fl = Next \<longrightarrow> error_free (trace s'))"
proof (rule drain_rule [where J = "\<lambda>i s. error_free (trace s)" and K = fails_fast,
      OF assms(1)])
  fix i s fl s'
  assume a: "error_free (trace s)" "drain_slot wfd i s = (fl, s')"
  from a(2) show "fails_fast fl s' \<and> (fl = Next \<longrightarrow> error_free (trace s'))"
    by (cases rule: drain_slot_cases) (use a(1) in \<open>auto simp: polled_def fails_fast_def\<close>)
qed (use assms(2) in \<open>simp_all add: fails_fast_weaken\<close>)

lemma shred_from_fails_fast:
  assumes "shred_from rfd wfd nbl len s = (fl, s')" and "list_all (\<lambda>e. \<not> is_aio e) (trace s)"
  shows "fails_fast fl s'"
proof -
  let ?s0 = "get_bl_list_from_array nbl (s\<lparr>off := 0, total_bytes := 0\<rparr>)"
  have e0: "error_free (trace ?s0)" using error_free_quiet [OF assms(2)]
    by (simp add: get_bl_list_from_array_def emit_def)
  from assms(1) show ?thesis
  proof (cases rule: shred_from_cases)
    case looping
    with main_loop_fails_fast [OF _ e0] show ?thesis by blast
  next
    case (draining s1)
    from main_loop_fails_fast [OF draining(2) e0]
    have "error_free (trace (free_bl_list s1))" by (simp add: free_bl_list_def emit_def)
    from drain_fails_fast [OF draining(3) this] show ?thesis by simp
  next
    case (flushing s1 s2)
    from main_loop_fails_fast [OF flushing(1) e0]
    have "error_free (trace (free_bl_list s1))" by (simp add: free_bl_list_def emit_def)
    from drain_fails_fast [OF flushing(2) this] have e2: "error_free (trace s2)" by simp
    from flushing(3) show ?thesis
      by (cases rule: flush_cases) (use e2 in \<open>auto simp: fails_fast_def\<close>)
  qed
qed

lemma sweep_error_run:
  "shred_from 3 4 2 10 (start (pool 3 4 2) sweep_error_script) =
     (Return (- 1),
      \<lparr>bl = [\<lparr>aio_fildes = 4, aio_offset = 0, aio_nbytes = 4\<rparr>,
             \<lparr>aio_fildes = 4, aio_offset = 4, aio_nbytes = 4\<rparr>],
       off = 8, total_bytes = 0, nread = 0, total_size = 0, errno = 5, script = [],
       stdout_errno = [],
       trace =
         [Malloc_list 2,
          Aio_write 0 \<lparr>aio_fildes = 4, aio_offset = 0, aio_nbytes = 4\<rparr> 0,
          Aio_write 1 \<lparr>aio_fildes = 4, aio_offset = 4, aio_nbytes = 4\<rparr> 0,
          Aio_suspend 0,
          Aio_error 0 \<lparr>aio_fildes = 4, aio_offset = 0, aio_nbytes = 4\<rparr> 5,
          Aio_return 0 \<lparr>aio_fildes = 4, aio_offset = 0, aio_nbytes = 4\<rparr> (- 1),
          Printf ''Write completion error: %s'' [5], Free_list]\<rparr>)"
  by (simp add: run_simps pool_2 sweep_error_script_def)

lemma drain_error_run:
  "shred_from 3 4 1 4 (start (pool 3 4 1) drain_error_script) =
     (Return (- 1),
      \<lparr>bl = [\<lparr>aio_fildes = 4, aio_offset = 0, aio_nbytes = 4\<rparr>],
       off = 4, total_bytes = 0, nread = 0, total_size = 0, errno = 5, script = [],
       stdout_errno = [],
       trace =
         [Malloc_list 1,
          Aio_write 0 \<lparr>aio_fildes = 4, aio_offset = 0, aio_nbytes = 4\<rparr> 0,
          Aio_suspend 0, Free_list,
          Aio_error 0 \<lparr>aio_fildes = 4, aio_offset = 0, aio_nbytes = 4\<rparr> 0,
          Aio_return 0 \<lparr>aio_fildes = 4, aio_offset = 0, aio_nbytes = 4\<rparr> (- 1),
          Printf ''Final write completion error: %s'' [5]]\<rparr>)"
  by (simp add: run_simps pool_1 drain_error_script_def)

lemma reports_no_dispatch: "list_all is_report es \<Longrightarrow> list_all (\<lambda>e. \<not> is_dispatch e) es"
proof (induction es)
  case Nil
  show ?case by simp
next
  case (Cons e es)
  then show ?case by (cases e) auto
qed

subsection \<open>What one slot of a round can do\<close>

lemma dispatch_cases:
  assumes "dispatch wfd len i s = (fl, s')"
  obtains (stuck) b where "aio_fildes b = wfd" "bl s' = (bl s)[i := b]" "fl = Stuck"
      "trace s' = trace s"
  | (refused) b r e where "aio_fildes b = wfd" "bl s' = (bl s)[i := b]" "fl = Return (- 1)"
      "r < 0" "trace s' = trace s @ [Aio_write i b r, Printf ''Write error: %s'' [e], Free_list]"
  | (sent) b r where "aio_fildes b = wfd" "bl s' = (bl s)[i := b]" "fl = Next \<or> fl = Break"
      "0 \<le> r" "trace s' = trace s @ [Aio_write i b r]"
proof -
  define b where "b = (let b = (bl s ! i)\<lparr>aio_fildes := wfd, aio_offset := off s\<rparr>
     in if len \<le> (aio_nbytes b + off s) mod SIZE_MOD
        then b\<lparr>aio_nbytes := (len + SIZE_MOD - off s) mod SIZE_MOD\<rparr> else b)"
  have f: "aio_fildes b = wfd" by (simp add: b_def Let_def)
  from assms have c: "call (Aio_write i b) (s\<lparr>bl := (bl s)[i := b]\<rparr>) (\<lambda>r s.
           if r < 0
           then (Return (- 1), free_bl_list (printf ''Write error: %s'' [errno s] s))
           else
             let s = s\<lparr>off := (off s + aio_nbytes (bl s ! i)) mod SIZE_MOD\<rparr>
             in if len \<le> off s then (Break, s) else (Next, s)) = (fl, s')"
    by (simp add: dispatch_def b_def Let_def)
  from c show ?thesis
  proof (cases rule: callE)
    case stuck
    then have "bl s' = (bl s)[i := b]" "trace s' = trace s" by simp_all
    with f stuck(2) show ?thesis by (intro that(1) [of b]) simp_all
  next
    case (answer a as)
    show ?thesis
    proof (cases "ret a < 0")
      case True
      with answer(2) have "bl s' = (bl s)[i := b]" "fl = Return (- 1)"
        "trace s' = trace s @ [Aio_write i b (ret a), Printf ''Write error: %s'' [eno a],
           Free_list]"
        by (auto simp: free_bl_list_def emit_def)
      with f True show ?thesis by (intro that(2) [of b "ret a" "eno a"]) simp_all
    next
      case False
      with answer(2) have "bl s' = (bl s)[i := b]" "fl = Next \<or> fl = Break"
        "trace s' = trace s @ [Aio_write i b (ret a)]"
        by (auto simp: Let_def split: if_splits)
      with f False show ?thesis by (intro that(3) [of b "ret a"]) simp_all
    qed
  qed
qed

lemma refill_cases:
  assumes "refill rfd i s = (fl, s')"
  obtains (stuck) "bl s' = (bl s)[i := (bl s ! i)\<lparr>aio_fildes := rfd\<rparr>]" "fl = Stuck"
      "trace s' = trace s"
  | (failed) fd n r e where "bl s' = (bl s)[i := (bl s ! i)\<lparr>aio_fildes := rfd\<rparr>]"
      "fl = Return (- 1)" "r < 0"
      "trace s' = trace s @ [Read fd i n r, Printf ''Read error: %s'' [e], Free_list]"
  | (refilled) fd n r where "bl s' = (bl s)[i := (bl s ! i)\<lparr>aio_fildes := rfd\<rparr>]"
      "fl = Next" "0 \<le> r" "trace s' = trace s @ [Read fd i n r]"
proof -
  let ?s1 = "s\<lparr>bl := (bl s)[i := (bl s ! i)\<lparr>aio_fildes := rfd\<rparr>]\<rparr>"
  from assms have c: "call (Read (aio_fildes (bl ?s1 ! i)) i (aio_nbytes (bl ?s1 ! i))) ?s1
      (\<lambda>res s.
           if res < 0
           then (Return (- 1), free_bl_list (printf ''Read error: %s'' [errno s] s))
           else (Next, s\<lparr>nread := nread s + 1\<rparr>)) = (fl, s')"
    by (simp add: refill_def Let_def)
  from c show ?thesis
  proof (cases rule: callE)
    case stuck
    then show ?thesis by (intro that(1)) simp_all
  next
    case (answer a as)
    show ?thesis
    proof (cases "ret a < 0")
      case True
      with answer(2) show ?thesis
        by (intro that(2) [of "ret a" "aio_fildes (bl ?s1 ! i)" "aio_nbytes (bl ?s1 ! i)" "eno a"])
          (auto simp: free_bl_list_def emit_def)
    next
      case False
      with answer(2) show ?thesis
        by (intro that(3) [of "ret a" "aio_fildes (bl ?s1 ! i)" "aio_nbytes (bl ?s1 ! i)"]) auto
    qed
  qed
qed

lemma complete_cases:
  assumes "complete rfd i s = (fl, s')"
  obtains (stuck) "fl = Stuck" "s' = s"
  | (busy) "fl = Next" "bl s' = bl s"
      "trace s' = trace s @ [Aio_error i (bl s ! i) EINPROGRESS]"
  | (unanswered) e where "fl = Stuck" "bl s' = bl s" "e \<noteq> EINPROGRESS"
      "trace s' = trace s @ [Aio_error i (bl s ! i) e]"
  | (failed) e r n where "fl = Return (- 1)" "bl s' = bl s" "e \<noteq> EINPROGRESS" "r < 0"
      "trace s' = trace s @ [Aio_error i (bl s ! i) e, Aio_return i (bl s ! i) r,
         Printf ''Write completion error: %s'' [n], Free_list]"
  | (collected) e r s1 where "e \<noteq> EINPROGRESS" "0 \<le> r" "bl s1 = bl s"
      "trace s1 = trace s @ [Aio_error i (bl s ! i) e, Aio_return i (bl s ! i) r]"
      "refill rfd i s1 = (fl, s')"
  using assms(1) unfolding complete_def
proof (cases rule: callE)
  case stuck
  then show ?thesis by (intro that(1)) simp_all
next
  case a1: (answer a as)
  let ?s1 = "s\<lparr>script := as, trace := trace s @ [Aio_error i (bl s ! i) (ret a)],
                errno := if ret a < 0 then eno a else errno s\<rparr>"
  show ?thesis
  proof (cases "ret a = EINPROGRESS")
    case True
    with a1(2) show ?thesis by (intro that(2)) auto
  next
    case False
    with a1(2) have c: "call (Aio_return i (bl ?s1 ! i)) ?s1 (\<lambda>bcnt s.
           if bcnt < 0
           then (Return (- 1),
                 free_bl_list (printf ''Write completion error: %s'' [errno s] s))
           else refill rfd i (s\<lparr>total_bytes := (total_bytes s + nat bcnt) mod SIZE_MOD\<rparr>))
         = (fl, s')" by simp
    from c show ?thesis
    proof (cases rule: callE)
      case stuck
      with False show ?thesis by (intro that(3) [of "ret a"]) simp_all
    next
      case a2: (answer a' as')
      show ?thesis
      proof (cases "ret a' < 0")
        case True
        with a2(2) False show ?thesis
          by (intro that(4) [of "ret a" "ret a'" "eno a'"])
            (auto simp: free_bl_list_def emit_def)
      next
        case nn: False
        let ?s2 = "?s1\<lparr>script := as', trace := trace ?s1 @ [Aio_return i (bl ?s1 ! i) (ret a')],
                errno := if ret a' < 0 then eno a' else errno ?s1,
                total_bytes := (total_bytes ?s1 + nat (ret a')) mod SIZE_MOD\<rparr>"
        from a2(2) nn have "refill rfd i ?s2 = (fl, s')" by simp
        with False nn show ?thesis
          by (intro that(5) [of "ret a" "ret a'" ?s2]) simp_all
      qed
    qed
  qed
qed

subsection \<open>Progress\<close>

lemma in_flight_update:
  "i < length bs \<Longrightarrow>
   in_flight wfd (bs[i := b]) + (if aio_fildes (bs ! i) = wfd then 1 else 0)
   = in_flight wfd bs + (if aio_fildes b = wfd then 1 else 0)"
  unfolding in_flight_def by (rule sum_list_map_update)

lemma in_flight_pos:
  "i < length bs \<Longrightarrow> aio_fildes (bs ! i) = wfd \<Longrightarrow> 0 < in_flight wfd bs"
  using in_flight_update [of i bs wfd "(bs ! i)\<lparr>aio_fildes := wfd + 1\<rparr>"] by simp

lemma slot_body_progress:
  assumes "shape rfd wfd C len nbl s" and "i < nbl" and "off s < len"
    and "len + C \<le> SIZE_MOD" and "0 < C" and "rfd \<noteq> wfd"
    and "supplied wfd C len fresh s"
    and "slot_body rfd wfd len i s = (fl, s')"
  shows "(fl = Next \<or> fl = Break) \<and> supplied wfd C len False s'"
  using assms(8)
proof (cases rule: slot_body_cases)
  case reading
  have l: "i < length (bl s)" using assms(1,2) by (simp add: shape_def)
  let ?b = "(bl s ! i)\<lparr>aio_fildes := wfd, aio_offset := off s,
                          aio_nbytes := chunk C len (off s)\<rparr>"
  have p: "in_flight wfd ((bl s)[i := ?b]) = in_flight wfd (bl s) + 1"
    using in_flight_update [OF l, of wfd ?b] reading(1) assms(6) by simp
  have c: "length (chunks C len (off s)) =
           Suc (length (chunks C len (off s + chunk C len (off s))))"
    using assms(3,5) by simp
  obtain a as where sc: "script s = a # as"
    using assms(7) c by (cases "script s") (auto simp: supplied_def)
  with assms(7) have co: "cooperative a" "list_all cooperative as" 
    by (auto simp: supplied_def)
  from co(1) have nn: "\<not> ret a < 0" by (simp add: cooperative_def)
  from assms(7) sc c p have n: "5 * length (chunks C len (off s + chunk C len (off s)))
      + 3 * in_flight wfd ((bl s)[i := ?b]) + 2 \<le> length as"
    by (auto simp: supplied_def split: if_splits)
  show ?thesis
    using reading(2) [unfolded dispatch_eq [OF assms(1-5)]] sc co(2) nn n
    by (auto simp: Let_def call_def supplied_def)
next
  case writing
  have l: "i < length (bl s)" using assms(1,2) by (simp add: shape_def)
  let ?b = "(bl s ! i)\<lparr>aio_fildes := rfd\<rparr>"
  have p: "in_flight wfd ((bl s)[i := ?b]) + 1 = in_flight wfd (bl s)"
    using in_flight_update [OF l, of wfd ?b] writing(2) assms(6) by simp
  then have "3 \<le> 3 * in_flight wfd (bl s)" by simp
  with assms(7) have "4 \<le> length (script s)" by (auto simp: supplied_def split: if_splits)
  then obtain a1 a2 a3 as where sc: "script s = a1 # a2 # a3 # as"
    by (cases "script s"; cases "tl (script s)"; cases "tl (tl (script s))") auto
  with assms(7) have co: "cooperative a1" "cooperative a2" "cooperative a3"
    "list_all cooperative as" by (auto simp: supplied_def)
  from assms(7) sc p have n: "5 * length (chunks C len (off s))
      + 3 * in_flight wfd ((bl s)[i := ?b]) + 1 \<le> length as"
    by (auto simp: supplied_def split: if_splits)
  show ?thesis
    using writing(3) sc co n
    by (auto simp: complete_def refill_def Let_def call_def supplied_def cooperative_def)
next
  case neither
  with assms(1,2) show ?thesis by (auto simp: shape_def)
qed


lemma for_slots_progress:
  assumes "for_slots rfd wfd len nbl i s = (fl, s')"
    and "shape rfd wfd C len nbl s" and "off s < len"
    and "len + C \<le> SIZE_MOD" and "0 < C" and "rfd \<noteq> wfd"
    and "supplied wfd C len fresh s" and "i < nbl \<or> \<not> fresh"
  shows "fl = Next \<and> shape rfd wfd C len nbl s' \<and> supplied wfd C len False s'"
  using assms
proof (induction rfd wfd len nbl i s arbitrary: fresh rule: for_slots.induct)
  case (1 rfd wfd len nbl i s)
  show ?case
  proof (cases "i < nbl")
    case False
    with "1.prems"(1,2,7,8) show ?thesis by simp
  next
    case True
    obtain f1 s1 where b: "slot_body rfd wfd len i s = (f1, s1)"
      by (cases "slot_body rfd wfd len i s")
    from slot_body_progress [OF "1.prems"(2) True "1.prems"(3-7) b]
    have f1: "f1 = Next \<or> f1 = Break" and su: "supplied wfd C len False s1" by simp_all
    have sh: "shape rfd wfd C len nbl s1"
      using "1.prems"(2) True "1.prems"(3,4,5) b f1 by (rule slot_body_shape)
    show ?thesis
    proof (cases "f1 = Next")
      case False
      with f1 "1.prems"(1) True b have "fl = Next" "s' = s1" by auto
      with sh su show ?thesis by simp
    next
      case n: True
      with "1.prems"(1) True b have r: "for_slots rfd wfd len nbl (i + 1) s1 = (fl, s')"
        by simp
      have o: "off s1 < len" using b [unfolded n] "1.prems"(3) by (rule slot_body_Next_off)
      from "1.IH" [OF True b [symmetric, unfolded n] refl r sh o "1.prems"(4,5,6) su]
      show ?thesis by simp
    qed
  qed
qed

lemma dispatch_round_progress:
  assumes "dispatch_round rfd wfd len nbl s = (fl, s')"
    and "shape rfd wfd C len nbl s" and "off s < len"
    and "len + C \<le> SIZE_MOD" and "0 < C" and "rfd \<noteq> wfd" and "0 < nbl"
    and "supplied wfd C len True s"
  shows "fl = Next \<and> shape rfd wfd C len nbl s' \<and> supplied wfd C len True s'"
proof -
  obtain f1 s1 where f: "for_slots rfd wfd len nbl 0 (s\<lparr>nread := 0\<rparr>) = (f1, s1)"
    by (cases "for_slots rfd wfd len nbl 0 (s\<lparr>nread := 0\<rparr>)")
  have sh0: "shape rfd wfd C len nbl (s\<lparr>nread := 0\<rparr>)" using assms(2) by (simp add: shape_def)
  have su0: "supplied wfd C len True (s\<lparr>nread := 0\<rparr>)" using assms(8) by (simp add: supplied_def)
  have "f1 = Next \<and> shape rfd wfd C len nbl s1 \<and> supplied wfd C len False s1"
    using f sh0 _ assms(4,5,6) su0
  proof (rule for_slots_progress)
    show "off (s\<lparr>nread := 0\<rparr>) < len" using assms(3) by simp
    show "0 < nbl \<or> \<not> True" using assms(7) by simp
  qed
  then have n: "f1 = Next" and sh: "shape rfd wfd C len nbl s1"
    and su: "supplied wfd C len False s1" by simp_all
  from assms(1) f n have st: "stall s1 = (fl, s')" by (simp add: dispatch_round_def)
  show ?thesis
  proof (cases "nread s1 = 0")
    case False
    with st have "fl = Next" "s' = s1" by (simp_all add: stall_def)
    with sh su False show ?thesis by (simp add: supplied_def)
  next
    case True
    with su obtain a as where sc: "script s1 = a # as"
      by (cases "script s1") (auto simp: supplied_def)
    with su have co: "cooperative a" "list_all cooperative as" by (auto simp: supplied_def)
    from co(1) have "\<not> ret a < 0" by (simp add: cooperative_def)
    with st True sc have "fl = Next" "bl s' = bl s1" "off s' = off s1" "script s' = as"
      by (auto simp: stall_def call_def)
    with sh su True sc co(2) show ?thesis by (auto simp: shape_def supplied_def)
  qed
qed

lemma main_loop_progress:
  assumes "main_loop rfd wfd len nbl s = (fl, s')"
    and "shape rfd wfd C len nbl s"
    and "len + C \<le> SIZE_MOD" and "0 < C" and "rfd \<noteq> wfd" and "0 < nbl"
    and "supplied wfd C len True s"
  shows "fl = Next \<and> shape rfd wfd C len nbl s' \<and> supplied wfd C len True s' \<and> off s' = len"
  using assms
proof (induction rfd wfd len nbl s rule: main_loop.induct)
  case (1 rfd wfd len nbl s)
  show ?case
  proof (cases "off s < len")
    case False
    with "1.prems"(1,2,7) show ?thesis by (auto simp: shape_def)
  next
    case True
    obtain f1 s1 where r: "dispatch_round rfd wfd len nbl s = (f1, s1)"
      by (cases "dispatch_round rfd wfd len nbl s")
    from dispatch_round_progress [OF r "1.prems"(2) True "1.prems"(3-7)]
    have n: "f1 = Next" and sh: "shape rfd wfd C len nbl s1"
      and su: "supplied wfd C len True s1" by simp_all
    from "1.prems"(1) True r n have m: "main_loop rfd wfd len nbl s1 = (fl, s')" by simp
    from "1.IH" [OF True r [symmetric, unfolded n] refl m sh "1.prems"(3-6) su]
    show ?thesis .
  qed
qed

lemma busy_wait_answered:
  assumes "script s = a # as" and "ret a \<noteq> EINPROGRESS"
  shows "busy_wait i s =
           (Next, s\<lparr>script := as, trace := trace s @ [Aio_error i (bl s ! i) (ret a)],
                       errno := (if ret a < 0 then eno a else errno s)\<rparr>)"
  using assms by (subst busy_wait.simps) (simp add: call_def)

lemma in_flight_drop:
  "i < length bs \<Longrightarrow>
   in_flight wfd (drop i bs) =
     (if aio_fildes (bs ! i) = wfd then 1 else 0) + in_flight wfd (drop (Suc i) bs)"
  by (simp add: in_flight_def Cons_nth_drop_Suc [symmetric])

lemma drain_progress:
  assumes "drain wfd nbl 0 s = (fl, s')" and "length (bl s) = nbl"
    and "list_all cooperative (script s)"
    and "2 * in_flight wfd (bl s) + 1 \<le> length (script s)"
  shows "fl = Next \<and> list_all cooperative (script s') \<and> 1 \<le> length (script s')"
proof -
  let ?J = "\<lambda>i s. length (bl s) = nbl \<and> list_all cooperative (script s) \<and>
              2 * in_flight wfd (drop i (bl s)) + 1 \<le> length (script s)"
  let ?K = "\<lambda>fl (s::state). fl = Next"
  have "?K fl s' \<and> (fl = Next \<longrightarrow> ?J nbl s')"
  proof (rule drain_rule [where J = ?J and K = ?K, OF assms(1)])
    show "?J 0 s" using assms(2,3,4) by simp
  next
    fix i s fl s'
    assume a: "i < nbl" "?J i s" "drain_slot wfd i s = (fl, s')"
    from a(1,2) have l: "i < length (bl s)" by simp
    note d = in_flight_drop [OF l, of wfd]
    show "?K fl s' \<and> (fl = Next \<longrightarrow> ?J (Suc i) s')"
    proof (cases "aio_fildes (bl s ! i) = wfd")
      case False
      with a(3) have "fl = Next" "s' = s" by (simp_all add: drain_slot_def)
      with a(2) d False show ?thesis by simp
    next
      case True
      with a(2) d have "3 \<le> length (script s)" by simp
      then obtain a1 a2 as where sc: "script s = a1 # a2 # as"
        by (cases "script s"; cases "tl (script s)") auto
      with a(2) have co: "cooperative a1" "cooperative a2" "list_all cooperative as"
        by simp_all
      from co(1) have "ret a1 \<noteq> EINPROGRESS" by (simp add: cooperative_def)
      note bw = busy_wait_answered [OF sc this, of i]
      from co(2) have "\<not> ret a2 < 0" by (simp add: cooperative_def)
      with a(3) True bw have "fl = Next" "bl s' = bl s" "script s' = as"
        by (auto simp: drain_slot_def call_def)
      with a(2) d True sc co(3) show ?thesis by simp
    qed
  qed simp_all
  then show ?thesis by auto
qed

lemma shred_from_progress:
  assumes "shred_from rfd wfd nbl len s = (fl, s')"
    and "primed rfd C nbl s" and "len + C \<le> SIZE_MOD" and "0 < C" and "rfd \<noteq> wfd"
    and "0 < nbl" and "list_all cooperative (script s)"
    and "5 * length (chunks C len 0) + 1 \<le> length (script s)"
  shows "\<exists>s1 s2.
           main_loop rfd wfd len nbl
             (get_bl_list_from_array nbl (s\<lparr>off := 0, total_bytes := 0\<rparr>)) = (Next, s1) \<and>
           drain wfd nbl 0 (free_bl_list s1) = (Next, s2) \<and>
           flush wfd s2 = (fl, s') \<and> script s2 \<noteq> [] \<and> off s2 = len"
proof -
  let ?s0 = "get_bl_list_from_array nbl (s\<lparr>off := 0, total_bytes := 0\<rparr>)"
  have sh: "shape rfd wfd C len nbl ?s0" using assms(2) by (rule primed_shape)
  have "in_flight wfd (bl s) = 0" using assms(2,5)
    by (auto simp: primed_def in_flight_def list_all_iff)
  then have su: "supplied wfd C len True ?s0" using assms(7,8)
    by (simp add: supplied_def get_bl_list_from_array_def emit_def)
  obtain f1 s1 where m: "main_loop rfd wfd len nbl ?s0 = (f1, s1)"
    by (cases "main_loop rfd wfd len nbl ?s0")
  from main_loop_progress [OF m sh assms(3,4,5,6) su]
  have n1: "f1 = Next" and sh1: "shape rfd wfd C len nbl s1"
    and su1: "supplied wfd C len True s1" and o1: "off s1 = len" by simp_all
  obtain f2 s2 where d: "drain wfd nbl 0 (free_bl_list s1) = (f2, s2)"
    by (cases "drain wfd nbl 0 (free_bl_list s1)")
  have "f2 = Next \<and> list_all cooperative (script s2) \<and> 1 \<le> length (script s2)"
  proof (rule drain_progress [OF d])
    show "length (bl (free_bl_list s1)) = nbl" using sh1
      by (simp add: shape_def free_bl_list_def emit_def)
    show "list_all cooperative (script (free_bl_list s1))" using su1
      by (simp add: supplied_def free_bl_list_def emit_def)
    show "2 * in_flight wfd (bl (free_bl_list s1)) + 1 \<le> length (script (free_bl_list s1))"
      using su1 by (simp add: supplied_def free_bl_list_def emit_def)
  qed
  then have n2: "f2 = Next" and l2: "script s2 \<noteq> []" by auto
  have o2: "off s2 = len" using drain_frame [OF d] o1 by (simp add: free_bl_list_def emit_def)
  from assms(1) m n1 d n2 have f: "flush wfd s2 = (fl, s')" by (simp add: shred_from_def)
  from m n1 d n2 f l2 o2 show ?thesis by blast
qed

lemma length_chunks:
  "0 < C \<Longrightarrow> length (chunks C len cur) = (len - cur + C - 1) div C"
proof (induction C len cur rule: chunks.induct)
  case (1 C len cur)
  show ?case
  proof (cases "cur < len")
    case False
    then have "len - cur + C - 1 < C" using "1.prems" by arith
    then have "(len - cur + C - 1) div C = 0" by (rule div_less)
    moreover have "chunks C len cur = []" using False by simp
    ultimately show ?thesis by (simp only: list.size)
  next
    case True
    have ih: "length (chunks C len (cur + chunk C len cur)) =
        (len - (cur + chunk C len cur) + C - 1) div C"
      using "1.IH" [OF conjI [OF True "1.prems"] "1.prems"] .
    have st: "length (chunks C len cur) = Suc (length (chunks C len (cur + chunk C len cur)))"
      using True "1.prems" by simp
    show ?thesis
    proof (cases "C \<le> len - cur")
      case False
      then have c: "chunk C len cur = len - cur" by (simp add: chunk_def)
      have "chunks C len (cur + chunk C len cur) = []" unfolding c using True by simp
      with st have l: "length (chunks C len cur) = 1" by simp
      define r where "r = len - cur - 1"
      have "r < C" unfolding r_def using False by arith
      have "len - cur + C - 1 = r + C" unfolding r_def using True by arith
      then have "(len - cur + C - 1) div C = (r + C) div C" by (rule arg_cong)
      also have "\<dots> = Suc (r div C)" using "1.prems" by (simp only: div_add_self2)
      also have "r div C = 0" using \<open>r < C\<close> by (rule div_less)
      finally show ?thesis using l by simp
    next
      case le: True
      then have c: "chunk C len cur = C" by (simp add: chunk_def)
      define x where "x = len - (cur + C) + C - 1"
      have "len - cur + C - 1 = x + C" unfolding x_def using le "1.prems" by arith
      then have "(len - cur + C - 1) div C = (x + C) div C" by (rule arg_cong)
      also have "\<dots> = Suc (x div C)" using "1.prems" by (simp only: div_add_self2)
      finally have "(len - cur + C - 1) div C = Suc (x div C)" .
      with st ih show ?thesis unfolding x_def c by (simp only:)
    qed
  qed
qed


lemma flushing_total:
  assumes "primed rfd C nbl s" and "len + C \<le> SIZE_MOD" and "0 < C" and "rfd \<noteq> wfd"
    and "main_loop rfd wfd len nbl
           (get_bl_list_from_array nbl (s\<lparr>off := 0, total_bytes := 0\<rparr>)) = (Next, s1)"
    and "drain wfd nbl 0 (free_bl_list s1) = (Next, s2)"
  shows "confirmed s2 \<and> sum_list (requests (trace s2)) = len"
proof -
  let ?s0 = "get_bl_list_from_array nbl (s\<lparr>off := 0, total_bytes := 0\<rparr>)"
  have sh: "shape rfd wfd C len nbl ?s0" using assms(1) by (rule primed_shape)
  have q: "counts (trace s) = []" "requests (trace s) = []"
    using assms(1) by (simp_all add: primed_def)
  have cf: "confirmed ?s0" using q
    by (simp add: confirmed_def get_bl_list_from_array_def emit_def)
  have "pending wfd (bl s) = 0" using assms(1,4)
    by (auto simp: primed_def pending_def list_all_iff)
  then have ba: "balanced wfd ?s0" using q
    by (simp add: balanced_def get_bl_list_from_array_def emit_def)
  from main_loop_balanced [OF assms(5) sh cf ba assms(2,3,4)]
  have 1: "confirmed s1" "length (bl s1) = nbl" "balanced wfd s1" "off s1 = len" by simp_all
  have "confirmed s2 \<and> (Next = Next \<longrightarrow> sum_list (requests (trace s2)) = len)"
  proof (rule drain_balanced [OF assms(6)])
    show "length (bl (free_bl_list s1)) = nbl" using 1(2) by (simp add: free_bl_list_def emit_def)
    show "confirmed (free_bl_list s1)" using 1(1)
      by (simp add: confirmed_def free_bl_list_def emit_def)
    show "sum_list (requests (trace (free_bl_list s1))) + pending wfd (bl (free_bl_list s1)) = len"
      using 1(3,4) by (simp add: balanced_def free_bl_list_def emit_def)
  qed
  then show ?thesis by simp
qed

lemma shred_from_cooperative:
  assumes "shred_from rfd wfd nbl len s = (fl, s')"
    and "primed rfd C nbl s" and "len < 2 ^ 63" and "C < 2 ^ 63" and "0 < C"
    and "rfd \<noteq> wfd" and "0 < nbl" and "list_all cooperative (script s)"
    and "5 * ((len + C - 1) div C) + 1 \<le> length (script s)"
  shows "(\<exists>v. fl = Return v) \<and> off s' = len \<and>
         (list_all flush_ok (trace s') \<and> list_all reports_no_more (trace s') \<longrightarrow>
            fl = Return (int (sum_list (counts (trace s')))))"
proof -
  have room: "len + C \<le> SIZE_MOD" using assms(3,4) by (rule size_room)
  have "length (chunks C len 0) = (len + C - 1) div C"
    using length_chunks [OF assms(5), of len 0] by simp
  with assms(9) have long: "5 * length (chunks C len 0) + 1 \<le> length (script s)" by simp
  from shred_from_progress [OF assms(1,2) room assms(5,6,7,8) long]
  obtain s1 s2 where m: "main_loop rfd wfd len nbl
             (get_bl_list_from_array nbl (s\<lparr>off := 0, total_bytes := 0\<rparr>)) = (Next, s1)"
    and d: "drain wfd nbl 0 (free_bl_list s1) = (Next, s2)"
    and f: "flush wfd s2 = (fl, s')" and ne: "script s2 \<noteq> []" and o: "off s2 = len"
    by blast
  from flushing_total [OF assms(2) room assms(5,6) m d]
  have cf: "confirmed s2" and rq: "sum_list (requests (trace s2)) = len" by simp_all
  from f show ?thesis
  proof (cases rule: flush_cases)
    case stuck
    with ne show ?thesis by simp
  next
    case (failed a as)
    with o show ?thesis by simp
  next
    case (flushed a as)
    have "fl = Return (int (sum_list (counts (trace s'))))"
      if "list_all reports_no_more (trace s')"
    proof -
      from that flushed(4) have "list_all reports_no_more (trace s2)" by simp
      then have "sum_list (counts (trace s2)) \<le> len" using counts_le_requests rq by fastforce
      with assms(3) have "sum_list (counts (trace s2)) < 2 ^ 63" by simp
      with cf flushed(3,4) show ?thesis by (simp add: confirmed_def to_ssize_small)
    qed
    with flushed o show ?thesis by simp
  qed
qed

section \<open>The claims\<close>

subsection \<open>An empty target\<close>

text \<open>
  Claim C8. For a target of length 0 the pipeline makes no dispatch round and issues no
  write, the drain collects nothing, and once the flush has succeeded \<open>shred_from\<close>
  returns 0: the only calls it makes are the allocation and release of the completion
  list and the \<open>fsync\<close>, and the confirmed total is 0.
\<close>

theorem empty_target_only_flushes:
  assumes "primed rfd C nbl s" and "rfd \<noteq> wfd" and "script s = a # as" and "ret a = 0"
  shows "shred_from rfd wfd nbl 0 s =
           (Return 0, s\<lparr>off := 0, total_bytes := 0, script := as,
                          trace := trace s @ [Malloc_list nbl, Free_list, Fsync wfd 0]\<rparr>)"
proof -
  let ?s0 = "get_bl_list_from_array nbl (s\<lparr>off := 0, total_bytes := 0\<rparr>)"
  have m: "main_loop rfd wfd 0 nbl ?s0 = (Next, ?s0)" by simp
  have "\<forall>j<nbl. aio_fildes (bl (free_bl_list ?s0) ! j) \<noteq> wfd"
    using assms(1,2)
    by (auto simp: primed_def list_all_length free_bl_list_def
        get_bl_list_from_array_def emit_def)
  then have d: "drain wfd nbl 0 (free_bl_list ?s0) = (Next, free_bl_list ?s0)"
    by (rule drain_skips)
  have f: "flush wfd (free_bl_list ?s0) =
      (Return 0, s\<lparr>off := 0, total_bytes := 0, script := as,
                     trace := trace s @ [Malloc_list nbl, Free_list, Fsync wfd 0]\<rparr>)"
    using assms(3,4)
    by (simp add: flush_def call_def free_bl_list_def get_bl_list_from_array_def emit_def
        to_ssize_def)
  show ?thesis by (simp add: shred_from_def m d f)
qed

theorem empty_target_only_flushes_witness:
  "primed 3 4 2 (start (pool 3 4 2) [ok 0]) \<and> (3::int) \<noteq> 4 \<and>
   script (start (pool 3 4 2) [ok 0]) = [ok 0] \<and> ret (ok 0) = 0 \<and>
   shred_from 3 4 2 0 (start (pool 3 4 2) [ok 0]) =
     (Return 0, (start (pool 3 4 2) [])\<lparr>trace := [Malloc_list 2, Free_list, Fsync 4 0]\<rparr>)"
proof -
  have p: "primed 3 4 2 (start (pool 3 4 2) [ok 0])"
    by (simp add: primed_def start_def pool_def numeral_2_eq_2)
  have s: "script (start (pool 3 4 2) [ok 0]) = [ok 0]" by (simp add: start_def)
  have r: "ret (ok 0) = 0" by (simp add: ok_def)
  have n: "(3::int) \<noteq> 4" by simp
  from empty_target_only_flushes [OF p n s r] p s r show ?thesis
    by (simp add: start_def)
qed

subsection \<open>The dispatched ranges partition the target\<close>



subsection \<open>The value returned by the pipeline\<close>

text \<open>
  Claim C1 says that every successful run over a target of length \<open>L\<close> returns \<open>L\<close>.
  That fails when a write completes short: the pipeline adds up what \<open>aio_return\<close>
  reports and neither retries nor rejects a count below the request. With one slot of
  four bytes on a target of four bytes and a write that reports two bytes, the run
  succeeds and returns 2.
\<close>

theorem short_write_counterexample:
  "fst (shred_from 3 4 1 4 (start (pool 3 4 1) short_write_script)) = Return 2 \<and>
   counts (trace (snd (shred_from 3 4 1 4 (start (pool 3 4 1) short_write_script)))) = [2] \<and>
   ranges (trace (snd (shred_from 3 4 1 4 (start (pool 3 4 1) short_write_script)))) =
     [(0, 4)]"
  using short_write_run by simp

text \<open>
  Claim C1, amended. The value a successful run returns is the sum of the byte counts
  that the completed writes reported, collected in the completion branch of the main loop
  and in the drain and never at dispatch: the sum as 64 bits hold it, and the exact sum
  when no completion reports more than its write requested. It is the target length when
  every completed write reports its whole request.
\<close>

theorem returned_total_is_sum_of_reported_counts:
  assumes "primed rfd C nbl s" and "rfd \<noteq> wfd" and "0 < C"
    and "len < 2 ^ 63" and "C < 2 ^ 63"
    and "shred_from rfd wfd nbl len s = (Return v, s')" and "0 \<le> v"
  shows "v = to_ssize (sum_list (counts (trace s'))) \<and>
         (list_all reports_no_more (trace s') \<longrightarrow> v = int (sum_list (counts (trace s')))) \<and>
         (list_all reports_all (trace s') \<longrightarrow> v = int len)"
proof -
  have room: "len + C \<le> SIZE_MOD" using assms(4,5) by (rule size_room)
  from shred_from_total [OF assms(6,7,1) room assms(3,2)]
  have v: "v = to_ssize (sum_list (counts (trace s')))"
    and r: "sum_list (requests (trace s')) = len" by simp_all
  have "v = int (sum_list (counts (trace s')))" if "list_all reports_no_more (trace s')"
  proof -
    from that have "sum_list (counts (trace s')) \<le> len"
      using counts_le_requests r by fastforce
    with assms(4) have "sum_list (counts (trace s')) < 2 ^ 63" by simp
    with v show ?thesis by (simp add: to_ssize_small)
  qed
  moreover have "v = int len" if "list_all reports_all (trace s')"
  proof -
    from that r have "sum_list (counts (trace s')) = len" by (simp add: counts_requests)
    with v assms(4) show ?thesis by (simp add: to_ssize_small)
  qed
  ultimately show ?thesis using v by blast
qed

theorem returned_total_is_sum_of_reported_counts_witness:
  "primed 3 4 2 (start (pool 3 4 2) scenario_script) \<and> (3::int) \<noteq> 4 \<and> (0::nat) < 4 \<and>
   (10::nat) < 2 ^ 63 \<and> (4::nat) < 2 ^ 63 \<and>
   fst (shred_from 3 4 2 10 (start (pool 3 4 2) scenario_script)) = Return 10 \<and>
   list_all reports_all (trace (snd (shred_from 3 4 2 10 (start (pool 3 4 2) scenario_script)))) \<and>
   counts (trace (snd (shred_from 3 4 2 10 (start (pool 3 4 2) scenario_script)))) = [4, 2, 4] \<and>
   (10::int) = to_ssize (sum_list
     (counts (trace (snd (shred_from 3 4 2 10 (start (pool 3 4 2) scenario_script))))))"
proof -
  have l: "(3::int) \<noteq> 4" "(0::nat) < 4" "(10::nat) < 2 ^ 63" "(4::nat) < 2 ^ 63"
    and p: "(0::int) \<le> 10" by simp_all
  note t = returned_total_is_sum_of_reported_counts [OF primed_scenario l scenario_run p]
  from t primed_scenario l show ?thesis by (simp add: scenario_run)
qed

subsection \<open>The length of every dispatched range\<close>



subsection \<open>A write that fails at completion\<close>

text \<open>
  Claim C4. When \<open>aio_return\<close> reports an error for a dispatched write, in the completion
  sweep of the main loop or in the drain, the run fails at once: \<open>shred_from\<close> returns
  \<open>-1\<close>, and after that call it makes no further call at all, in particular no further
  dispatch; it only prints its message and, in the main loop, releases its list.
\<close>

theorem completion_error_aborts_run:
  assumes "list_all (\<lambda>e. \<not> is_aio e) (trace s)"
    and "shred_from rfd wfd nbl len s = (fl, s')"
    and "trace s' = pre @ Aio_return i cb r # post" and "r < 0"
  shows "fl = Return (- 1) \<and> list_all is_report post \<and>
         list_all (\<lambda>e. \<not> is_dispatch e) post"
proof -
  from shred_from_fails_fast [OF assms(2,1)]
  have a: "aborts_at_error (trace s')" and f: "error_free (trace s') \<or> fl = Return (- 1)"
    by (simp_all add: fails_fast_def)
  from assms(3,4) have "\<not> error_free (trace s')" by simp
  with f have 1: "fl = Return (- 1)" by simp
  from a assms(3,4) have 2: "list_all is_report post" by (auto dest: aborts_split)
  from 1 2 reports_no_dispatch show ?thesis by blast
qed

theorem completion_error_aborts_run_witness:
  "list_all (\<lambda>e. \<not> is_aio e) (trace (start (pool 3 4 2) sweep_error_script)) \<and>
   trace (snd (shred_from 3 4 2 10 (start (pool 3 4 2) sweep_error_script))) =
     [Malloc_list 2,
      Aio_write 0 \<lparr>aio_fildes = 4, aio_offset = 0, aio_nbytes = 4\<rparr> 0,
      Aio_write 1 \<lparr>aio_fildes = 4, aio_offset = 4, aio_nbytes = 4\<rparr> 0,
      Aio_suspend 0,
      Aio_error 0 \<lparr>aio_fildes = 4, aio_offset = 0, aio_nbytes = 4\<rparr> 5]
     @ Aio_return 0 \<lparr>aio_fildes = 4, aio_offset = 0, aio_nbytes = 4\<rparr> (- 1)
     # [Printf ''Write completion error: %s'' [5], Free_list] \<and>
   (- 1 :: int) < 0 \<and>
   fst (shred_from 3 4 2 10 (start (pool 3 4 2) sweep_error_script)) = Return (- 1) \<and>
   list_all (\<lambda>e. \<not> is_dispatch e) [Printf ''Write completion error: %s'' [5], Free_list] \<and>
   list_all (\<lambda>e. \<not> is_aio e) (trace (start (pool 3 4 1) drain_error_script)) \<and>
   trace (snd (shred_from 3 4 1 4 (start (pool 3 4 1) drain_error_script))) =
     [Malloc_list 1,
      Aio_write 0 \<lparr>aio_fildes = 4, aio_offset = 0, aio_nbytes = 4\<rparr> 0,
      Aio_suspend 0, Free_list,
      Aio_error 0 \<lparr>aio_fildes = 4, aio_offset = 0, aio_nbytes = 4\<rparr> 0]
     @ Aio_return 0 \<lparr>aio_fildes = 4, aio_offset = 0, aio_nbytes = 4\<rparr> (- 1)
     # [Printf ''Final write completion error: %s'' [5]] \<and>
   fst (shred_from 3 4 1 4 (start (pool 3 4 1) drain_error_script)) = Return (- 1) \<and>
   list_all is_report [Printf ''Final write completion error: %s'' [5]]"
proof -
  have q2: "list_all (\<lambda>e. \<not> is_aio e) (trace (start (pool 3 4 2) sweep_error_script))"
    and q1: "list_all (\<lambda>e. \<not> is_aio e) (trace (start (pool 3 4 1) drain_error_script))"
    by (simp_all add: start_def)
  have n: "(- 1 :: int) < 0" by simp
  have t2: "trace (snd (shred_from 3 4 2 10 (start (pool 3 4 2) sweep_error_script))) =
     [Malloc_list 2,
      Aio_write 0 \<lparr>aio_fildes = 4, aio_offset = 0, aio_nbytes = 4\<rparr> 0,
      Aio_write 1 \<lparr>aio_fildes = 4, aio_offset = 4, aio_nbytes = 4\<rparr> 0,
      Aio_suspend 0,
      Aio_error 0 \<lparr>aio_fildes = 4, aio_offset = 0, aio_nbytes = 4\<rparr> 5]
     @ Aio_return 0 \<lparr>aio_fildes = 4, aio_offset = 0, aio_nbytes = 4\<rparr> (- 1)
     # [Printf ''Write completion error: %s'' [5], Free_list]"
    by (simp add: sweep_error_run)
  have t1: "trace (snd (shred_from 3 4 1 4 (start (pool 3 4 1) drain_error_script))) =
     [Malloc_list 1,
      Aio_write 0 \<lparr>aio_fildes = 4, aio_offset = 0, aio_nbytes = 4\<rparr> 0,
      Aio_suspend 0, Free_list,
      Aio_error 0 \<lparr>aio_fildes = 4, aio_offset = 0, aio_nbytes = 4\<rparr> 0]
     @ Aio_return 0 \<lparr>aio_fildes = 4, aio_offset = 0, aio_nbytes = 4\<rparr> (- 1)
     # [Printf ''Final write completion error: %s'' [5]]"
    using drain_error_run by simp
  note a = completion_error_aborts_run [OF q2 prod.collapse [symmetric] t2 n]
  note b = completion_error_aborts_run [OF q1 prod.collapse [symmetric] t1 n]
  from a b q1 q2 t1 t2 show ?thesis by simp
qed

end
